theory Spec2Isabelle
  imports
    Main
    "HOL-Library.Word"
    "HOL-Library.Multiset"
    "HOL-Library.Char_ord"
    "HOL-Library.List_Lexorder"
    "HOL-Library.Product_Lexorder"
begin

unbundle bit_operations_syntax

section \<open>The broadcast relay (\<open>google-docs/websocket.js\<close>)\<close>

text \<open>
  A socket is a JavaScript object; the model names it by a number. A JavaScript \<open>Set\<close>
  keeps its members without duplicates in insertion order, so a room's set is a list that
  \<open>set_add\<close> and \<open>set_delete\<close> keep duplicate-free. \<open>rooms\<close> is the
  \<open>Map\<close> from room id to that set. Reading a property of \<open>undefined\<close> throws a
  \<open>TypeError\<close>; every place where \<open>rooms.get(roomId)\<close> is dereferenced has that
  branch.
\<close>

datatype error = TypeError

type_synonym socket = nat

datatype readyState = CONNECTING | OPEN | CLOSING | CLOSED

type_synonym room_map = "string \<rightharpoonup> socket list"

definition set_add :: "'a \<Rightarrow> 'a list \<Rightarrow> 'a list" where
  "set_add x xs = (if x \<in> set xs then xs else xs @ [x])"

definition set_delete :: "'a \<Rightarrow> 'a list \<Rightarrow> 'a list" where
  "set_delete x xs = removeAll x xs"

text \<open>\<open>url.searchParams.get('room') || 'lobby'\<close>: a missing or empty parameter is falsy.\<close>

definition roomId_of :: "string option \<Rightarrow> string" where
  "roomId_of p = (case p of None \<Rightarrow> ''lobby'' | Some r \<Rightarrow> if r = [] then ''lobby'' else r)"

text \<open>Lines 13-14: create the room's set when the room is new, then add the socket.\<close>

definition on_connection :: "room_map \<Rightarrow> socket \<Rightarrow> string \<Rightarrow> error + room_map" where
  "on_connection rooms socket roomId =
     (let rooms1 = (if rooms roomId = None then rooms(roomId \<mapsto> []) else rooms)
      in case rooms1 roomId of
           None \<Rightarrow> Inl TypeError
         | Some members \<Rightarrow> Inr (rooms1(roomId \<mapsto> set_add socket members)))"

text \<open>
  Lines 16-23: the message handler of \<open>socket\<close>, whose closure holds \<open>roomId\<close>. The
  result is the sequence of \<open>client.send(data)\<close> calls, in iteration order.
\<close>

definition on_message ::
  "room_map \<Rightarrow> (socket \<Rightarrow> readyState) \<Rightarrow> socket \<Rightarrow> string \<Rightarrow> 'd \<Rightarrow> error + (socket \<times> 'd) list" where
  "on_message rooms ready socket roomId data =
     (case rooms roomId of
        None \<Rightarrow> Inl TypeError
      | Some members \<Rightarrow>
          Inr (map (\<lambda>client. (client, data))
                 (filter (\<lambda>client. client \<noteq> socket \<and> ready client = OPEN) members)))"

text \<open>Lines 25-28: the close handler of \<open>socket\<close>.\<close>

definition on_close :: "room_map \<Rightarrow> socket \<Rightarrow> string \<Rightarrow> error + room_map" where
  "on_close rooms socket roomId =
     (case rooms roomId of
        None \<Rightarrow> Inl TypeError
      | Some members \<Rightarrow>
          (let rooms1 = rooms(roomId \<mapsto> set_delete socket members)
           in case rooms1 roomId of
                None \<Rightarrow> Inl TypeError
              | Some rest \<Rightarrow>
                  if length rest = 0 then Inr (rooms1(roomId := None)) else Inr rooms1))"

text \<open>
  The server: the \<open>rooms\<close> map, the handlers registered so far (each socket's handlers
  with the \<open>roomId\<close> their closure captured), every socket's \<open>readyState\<close>, and the
  number of sockets created so far. Each connection gets a new socket object, so the
  \<open>Connection\<close> event allocates the next number. The \<open>ws\<close> library emits
  \<open>close\<close> once per socket and no \<open>message\<close> after it: a closed socket's handlers
  are dropped from \<open>handlers\<close>, and an event of a socket without handlers runs no code.
  \<open>ReadyState\<close> is the library changing a socket's \<open>readyState\<close> at any time.
\<close>

record server =
  rooms :: room_map
  handlers :: "socket \<rightharpoonup> string"
  ready :: "socket \<Rightarrow> readyState"
  next_socket :: nat

datatype socket_event =
    Connection "string option"
  | Message socket string
  | Close socket
  | ReadyState socket readyState

definition init :: server where
  "init = \<lparr>rooms = Map.empty, handlers = Map.empty, ready = (\<lambda>_. CONNECTING), next_socket = 0\<rparr>"

fun step :: "server \<Rightarrow> socket_event \<Rightarrow> error + (server \<times> (socket \<times> string) list)" where
  "step s (Connection p) =
     (let socket = next_socket s; roomId = roomId_of p
      in case on_connection (rooms s) socket roomId of
           Inl e \<Rightarrow> Inl e
         | Inr rooms' \<Rightarrow>
             Inr (s\<lparr>rooms := rooms', handlers := (handlers s)(socket \<mapsto> roomId),
                     ready := (ready s)(socket := OPEN), next_socket := Suc socket\<rparr>, []))"
| "step s (Message socket data) =
     (case handlers s socket of
        None \<Rightarrow> Inr (s, [])
      | Some roomId \<Rightarrow>
          (case on_message (rooms s) (ready s) socket roomId data of
             Inl e \<Rightarrow> Inl e
           | Inr sends \<Rightarrow> Inr (s, sends)))"
| "step s (Close socket) =
     (case handlers s socket of
        None \<Rightarrow> Inr (s, [])
      | Some roomId \<Rightarrow>
          (case on_close (rooms s) socket roomId of
             Inl e \<Rightarrow> Inl e
           | Inr rooms' \<Rightarrow>
               Inr (s\<lparr>rooms := rooms', handlers := (handlers s)(socket := None),
                       ready := (ready s)(socket := CLOSED)\<rparr>, [])))"
| "step s (ReadyState socket st) = Inr (s\<lparr>ready := (ready s)(socket := st)\<rparr>, [])"

fun run :: "server \<Rightarrow> socket_event list \<Rightarrow> error + server" where
  "run s [] = Inr s"
| "run s (e # es) = (case step s e of Inl err \<Rightarrow> Inl err | Inr (s', _) \<Rightarrow> run s' es)"

text \<open>
  The invariant of the reachable states: every room in the map has a duplicate-free,
  non-empty member list, a socket is a member of a room exactly when its live handlers
  hold that room's id, and every socket with handlers was allocated.
\<close>

definition rooms_nonempty :: "room_map \<Rightarrow> bool" where
  "rooms_nonempty m = (\<forall>r members. m r = Some members \<longrightarrow> members \<noteq> [])"

definition server_inv :: "server \<Rightarrow> bool" where
  "server_inv s =
     (rooms_nonempty (rooms s) \<and>
      (\<forall>r members. rooms s r = Some members \<longrightarrow> distinct members) \<and>
      (\<forall>c r. handlers s c = Some r \<longleftrightarrow> (\<exists>members. rooms s r = Some members \<and> c \<in> set members)) \<and>
      (\<forall>c r. handlers s c = Some r \<longrightarrow> c < next_socket s))"

section \<open>The redirect service (\<open>unnamed/part_000\<close>)\<close>

text \<open>
  The values the handlers see are JSON values or \<open>undefined\<close>; of a number only
  whether it is zero matters here, because the code tests \<open>!longUrl\<close> and otherwise
  stores and returns the value as it is. \<open>JObject\<close> stands for every object and array.
\<close>

datatype json = JUndefined | JNull | JBool bool | JNum int | JStr string | JObject

fun truthy :: "json \<Rightarrow> bool" where
  "truthy JUndefined = False"
| "truthy JNull = False"
| "truthy (JBool b) = b"
| "truthy (JNum n) = (n \<noteq> 0)"
| "truthy (JStr s) = (s \<noteq> [])"
| "truthy JObject = True"

datatype response = Json nat "(string \<times> json) list" | Redirect json

definition chars :: string where
  "chars = ''ABCDEFGHIJKLMNOPQRSTUVWXYZabcdefghijklmnopqrstuvwxyz0123456789''"

text \<open>\<open>String.prototype.charAt\<close>: the empty string when the index is out of range.\<close>

definition charAt :: "string \<Rightarrow> nat \<Rightarrow> string" where
  "charAt s i = (if i < length s then [s ! i] else [])"

text \<open>
  \<open>Math.random()\<close> is the only input that is not a request. The model takes the random
  source as a sequence \<open>rnd\<close>: \<open>rnd n\<close> is the value of
  \<open>Math.floor(Math.random() * chars.length)\<close> at the \<open>n\<close>-th call of
  \<open>Math.random\<close> since the server started, and the state counts the calls made.
  \<open>Math.random()\<close> lies in \<open>[0, 1)\<close>, so a real source has \<open>rnd n < 62\<close>; the
  theorems assume exactly that.
\<close>

function generateShortUrl_loop :: "(nat \<Rightarrow> nat) \<Rightarrow> nat \<Rightarrow> nat \<Rightarrow> string \<Rightarrow> string \<times> nat" where
  "generateShortUrl_loop rnd calls i shortUrl =
     (if i < 6
      then generateShortUrl_loop rnd (Suc calls) (Suc i) (shortUrl @ charAt chars (rnd calls))
      else (shortUrl, calls))"
  by pat_completeness auto
termination
  by (relation "measure (\<lambda>(rnd, calls, i, shortUrl). 6 - i)") auto

declare generateShortUrl_loop.simps [simp del]

definition generateShortUrl :: "(nat \<Rightarrow> nat) \<Rightarrow> nat \<Rightarrow> string \<times> nat" where
  "generateShortUrl rnd calls = generateShortUrl_loop rnd calls 0 []"

type_synonym url_map = "string \<rightharpoonup> json"

text \<open>
  Lines 31-34: \<open>do { shortUrl = generateShortUrl(); } while (urlMap.has(shortUrl))\<close>.
  Nothing bounds the number of rounds, so the loop is a partial function: \<open>None\<close> is the
  loop that never ends.
\<close>

partial_function (option) unique_shortUrl ::
  "(nat \<Rightarrow> nat) \<Rightarrow> url_map \<Rightarrow> nat \<Rightarrow> (string \<times> nat) option" where
  "unique_shortUrl rnd urlMap calls =
     (case generateShortUrl rnd calls of
        (shortUrl, calls') \<Rightarrow>
          if urlMap shortUrl \<noteq> None then unique_shortUrl rnd urlMap calls'
          else Some (shortUrl, calls'))"

record shortener =
  urlMap :: url_map
  random_calls :: nat

definition field :: "(string \<rightharpoonup> json) \<Rightarrow> string \<Rightarrow> json" where
  "field obj name = (case obj name of None \<Rightarrow> JUndefined | Some v \<Rightarrow> v)"

text \<open>
  Lines 23-43, \<open>POST /api/urls/shorten\<close>; \<open>body\<close> is the parsed JSON object
  \<open>req.body\<close>. The result is \<open>None\<close> when the handler never answers.
\<close>

definition post_shorten ::
  "(nat \<Rightarrow> nat) \<Rightarrow> shortener \<Rightarrow> (string \<rightharpoonup> json) \<Rightarrow> (shortener \<times> response) option" where
  "post_shorten rnd s body =
     (let longUrl = field body ''longUrl''
      in if \<not> truthy longUrl
         then Some (s, Json 400 [(''error'', JStr ''Long URL is required'')])
         else (case unique_shortUrl rnd (urlMap s) (random_calls s) of
                 None \<Rightarrow> None
               | Some (shortUrl, calls') \<Rightarrow>
                   Some (s\<lparr>urlMap := (urlMap s)(shortUrl \<mapsto> longUrl), random_calls := calls'\<rparr>,
                         Json 200 [(''shortUrl'', JStr shortUrl), (''longUrl'', longUrl)])))"

text \<open>Lines 46-55, \<open>GET /api/urls/:shortUrl\<close>.\<close>

definition get_url :: "shortener \<Rightarrow> string \<Rightarrow> response" where
  "get_url s shortUrl =
     (let longUrl = field (urlMap s) shortUrl
      in if \<not> truthy longUrl
         then Json 404 [(''error'', JStr ''Short URL not found'')]
         else Redirect longUrl)"

text \<open>The string that the \<open>n\<close>-th round of the loop draws, when the loop starts at \<open>calls\<close>.\<close>

definition candidate :: "(nat \<Rightarrow> nat) \<Rightarrow> nat \<Rightarrow> nat \<Rightarrow> string" where
  "candidate rnd calls n = fst (generateShortUrl rnd (calls + 6 * n))"

text \<open>
  The same string read off the draws themselves: round \<open>n\<close> of the loop makes the six
  calls \<open>calls + 6n, \<dots>, calls + 6n + 5\<close> of \<open>Math.random\<close> and joins the six
  characters they select.
\<close>

definition drawn :: "(nat \<Rightarrow> nat) \<Rightarrow> nat \<Rightarrow> nat \<Rightarrow> string" where
  "drawn rnd calls n =
     [chars ! rnd (calls + 6 * n), chars ! rnd (calls + 6 * n + 1),
      chars ! rnd (calls + 6 * n + 2), chars ! rnd (calls + 6 * n + 3),
      chars ! rnd (calls + 6 * n + 4), chars ! rnd (calls + 6 * n + 5)]"

text \<open>A random source whose every draw selects the first character.\<close>

definition constant_source :: "nat \<Rightarrow> nat" where
  "constant_source n = 0"

section \<open>The windowed top-K aggregator (\<open>unnamed/part_001\<close>, class \<open>TopKWindowedAggregator\<close>)\<close>

text \<open>
  \<open>process\<close> is called with the elements of one window. A count is a Java
  \<open>Integer\<close>: a 32-bit word, added with wrap-around and compared as a signed number.
  An element is the pair \<open>(f0, f1)\<close> of an item id and its weight.
\<close>

type_synonym entry = "string \<times> 32 word"

definition K :: nat where
  "K = 5"

subsection \<open>Step 1: counting (lines 62-66)\<close>

text \<open>
  Line 65, \<open>counts.put(e.f0, counts.getOrDefault(e.f0, 0) + e.f1)\<close>. The key type is
  left open: the per-window store of the specification applies the same update to
  \<open>(window, key)\<close> pairs.
\<close>

definition increment :: "('k \<rightharpoonup> 32 word) \<Rightarrow> 'k \<Rightarrow> 32 word \<Rightarrow> ('k \<rightharpoonup> 32 word)" where
  "increment counts k weight =
     counts(k \<mapsto> (case counts k of None \<Rightarrow> 0 | Some c \<Rightarrow> c) + weight)"

definition count_views :: "entry list \<Rightarrow> (string \<rightharpoonup> 32 word)" where
  "count_views elements = fold (\<lambda>e counts. increment counts (fst e) (snd e)) elements Map.empty"

subsection \<open>Step 2: the bounded min-heap (lines 68-77)\<close>

text \<open>
  \<open>Integer.compare\<close>, and the two comparators built from it: the heap's
  \<open>Comparator.comparingInt(Map.Entry::getValue)\<close> and the final sort's
  \<open>(a, b) -> b.getValue().compareTo(a.getValue())\<close>. Neither looks at the key.
\<close>

definition compare_int :: "32 word \<Rightarrow> 32 word \<Rightarrow> int" where
  "compare_int x y = (if sint x < sint y then - 1 else if x = y then 0 else 1)"

definition heap_cmp :: "entry \<Rightarrow> entry \<Rightarrow> int" where
  "heap_cmp a b = compare_int (snd a) (snd b)"

definition sort_cmp :: "entry \<Rightarrow> entry \<Rightarrow> int" where
  "sort_cmp a b = compare_int (snd b) (snd a)"

text \<open>
  \<open>java.util.PriorityQueue\<close> is a binary heap in an array: the children of slot \<open>k\<close>
  are the slots \<open>2k+1\<close> and \<open>2k+2\<close>. The model is the list of the \<open>size\<close> used
  slots, and \<open>siftUp\<close>, \<open>offer\<close>, \<open>siftDown\<close> and \<open>poll\<close> are the library's
  methods of those names, with the queue's comparator \<open>heap_cmp\<close>. \<open>offer\<close> writes
  the new slot before anything reads it, so what the model appends there does not matter.
\<close>

function siftUp :: "nat \<Rightarrow> entry \<Rightarrow> entry list \<Rightarrow> entry list" where
  "siftUp k x es =
     (if k > 0
      then (let parent = (k - 1) div 2; e = es ! parent
            in if heap_cmp x e \<ge> 0 then es[k := x]
               else siftUp parent x (es[k := e]))
      else es[k := x])"
  by pat_completeness auto
termination
  by (relation "measure (\<lambda>(k, x, es). k)") auto

declare siftUp.simps [simp del]

definition offer :: "entry \<Rightarrow> entry list \<Rightarrow> entry list" where
  "offer e queue = siftUp (length queue) e (queue @ [e])"

function siftDown :: "nat \<Rightarrow> entry \<Rightarrow> entry list \<Rightarrow> nat \<Rightarrow> entry list" where
  "siftDown k x es n =
     (if k < n div 2
      then (let child = 2 * k + 1; right = child + 1;
                child = (if right < n \<and> heap_cmp (es ! child) (es ! right) > 0
                         then right else child);
                c = es ! child
            in if heap_cmp x c \<le> 0 then es[k := x]
               else siftDown child x (es[k := c]) n)
      else es[k := x])"
  by pat_completeness auto
termination
  by (relation "measure (\<lambda>(k, x, es, n). n - k)") auto

declare siftDown.simps [simp del]

text \<open>\<open>poll\<close> returns the head (\<open>null\<close> on an empty queue) and the queue that is left.\<close>

definition poll :: "entry list \<Rightarrow> entry option \<times> entry list" where
  "poll queue =
     (case queue of
        [] \<Rightarrow> (None, [])
      | result # _ \<Rightarrow>
          (let n = length queue - 1; x = queue ! n; es = take n queue
           in (Some result, if n > 0 then siftDown 0 x es n else es)))"

text \<open>
  Lines 72-77: the body of the loop offers the entry and polls once when the heap then
  holds more than \<open>k\<close> entries; the loop runs it for every entry, from the empty heap.
\<close>

definition heap_step :: "nat \<Rightarrow> entry \<Rightarrow> entry list \<Rightarrow> entry list" where
  "heap_step k entry heap =
     (let heap' = offer entry heap in if length heap' > k then snd (poll heap') else heap')"

definition keep_best :: "nat \<Rightarrow> entry list \<Rightarrow> entry list" where
  "keep_best k entries = fold (heap_step k) entries []"

subsection \<open>Step 3: sorting and the result map (lines 79-88)\<close>

text \<open>
  \<open>new ArrayList<>(heap)\<close> copies the heap's array in slot order. \<open>List.sort\<close> is a
  stable sort; the result of a stable sort is fixed by the input and the comparator, so
  the model is the insertion sort that keeps equal entries in their input order.
\<close>

fun sort_insert :: "entry \<Rightarrow> entry list \<Rightarrow> entry list" where
  "sort_insert x [] = [x]"
| "sort_insert x (y # ys) = (if sort_cmp x y \<le> 0 then x # y # ys else y # sort_insert x ys)"

definition list_sort :: "entry list \<Rightarrow> entry list" where
  "list_sort xs = foldr sort_insert xs []"

text \<open>
  \<open>LinkedHashMap.put\<close>: a new key goes to the end of the iteration order, a key that
  is present keeps its place and gets the new value.
\<close>

fun linked_put :: "string \<Rightarrow> 32 word \<Rightarrow> entry list \<Rightarrow> entry list" where
  "linked_put k v [] = [(k, v)]"
| "linked_put k v (p # ps) = (if fst p = k then (k, v) # ps else p # linked_put k v ps)"

text \<open>
  Steps 2 and 3 together are the top-K selection. Its input is the sequence in which
  \<open>counts.entrySet()\<close> hands out the entries of the \<open>HashMap\<close>: each key once, in an
  order that the map's contents alone do not fix (it follows the keys' hash codes and,
  inside one bucket, the order of insertion). The output is the iteration order of the
  emitted \<open>LinkedHashMap\<close>.
\<close>

definition selectTopK :: "nat \<Rightarrow> entry list \<Rightarrow> entry list" where
  "selectTopK k entries =
     (let heap = keep_best k entries;
          topK = list_sort heap
      in fold (\<lambda>e result. linked_put (fst e) (snd e) result) topK [])"

text \<open>
  The whole method, given the order \<open>entrySet\<close> in which the \<open>HashMap\<close> of counts
  is iterated.
\<close>

definition process :: "((string \<rightharpoonup> 32 word) \<Rightarrow> entry list) \<Rightarrow> entry list \<Rightarrow> entry list" where
  "process entrySet elements = selectTopK K (entrySet (count_views elements))"

subsection \<open>Where a \<open>HashMap\<close> puts a key\<close>

text \<open>
  \<open>String.hashCode\<close> (\<open>h = 31 * h + c\<close> over the characters, in 32 bits) and the
  bucket of a key in a \<open>HashMap\<close> whose table has \<open>n\<close> buckets, \<open>n\<close> a power of
  two: \<open>(n - 1) & (h ^ (h >>> 16))\<close>. A map with at most 12 keys has 16 buckets. The
  iteration goes through the buckets in ascending order and, inside a bucket, through the
  keys in the order of their insertion. These two functions only serve to show that the
  iteration orders of the examples below are orders of a real \<open>HashMap\<close>.
\<close>

definition hashCode :: "string \<Rightarrow> 32 word" where
  "hashCode s = foldl (\<lambda>h c. 31 * h + of_char c) 0 s"

definition bucket :: "nat \<Rightarrow> string \<Rightarrow> nat" where
  "bucket n k = unat ((of_nat n - 1) AND (hashCode k XOR drop_bit 16 (hashCode k)))"

subsection \<open>The specification's ordering and reference selection\<close>

text \<open>
  The order the specification asks for: count descending, equal counts by key ascending
  (strings in lexicographic order), and the reference selection in its words: sort all
  entries by that order and take the first \<open>k\<close>. \<open>count_sorted\<close> is the weaker order
  by count alone.
\<close>

definition spec_before :: "entry \<Rightarrow> entry \<Rightarrow> bool" where
  "spec_before a b =
     (sint (snd b) < sint (snd a) \<or> (sint (snd a) = sint (snd b) \<and> fst a \<le> fst b))"

definition spec_sorted :: "entry list \<Rightarrow> bool" where
  "spec_sorted xs = sorted_wrt spec_before xs"

definition count_sorted :: "entry list \<Rightarrow> bool" where
  "count_sorted xs = sorted_wrt (\<lambda>a b. sint (snd b) \<le> sint (snd a)) xs"

definition reference_topK :: "nat \<Rightarrow> entry list \<Rightarrow> entry list" where
  "reference_topK k entries = take k (sort_key (\<lambda>e. (- sint (snd e), fst e)) entries)"

subsection \<open>Notions used in the proofs\<close>

text \<open>
  The signed value of an entry's count, the heap order of the queue's array, the child
  that \<open>siftDown\<close> compares with, the invariant of the loop of step 2 (the heap holds
  \<open>min k n\<close> of the \<open>n\<close> entries seen, none of them smaller than one it dropped),
  and the exact sum of the weights of a key.
\<close>

abbreviation cnt :: "entry \<Rightarrow> int" where "cnt e \<equiv> sint (snd e)"

definition is_heap :: "entry list \<Rightarrow> bool" where
  "is_heap q = (\<forall>i. 0 < i \<and> i < length q \<longrightarrow> cnt (q ! ((i - 1) div 2)) \<le> cnt (q ! i))"

definition min_child :: "entry list \<Rightarrow> nat \<Rightarrow> nat \<Rightarrow> nat" where
  "min_child es n k =
     (if 2 * k + 2 < n \<and> 0 < heap_cmp (es ! (2 * k + 1)) (es ! (2 * k + 2))
      then 2 * k + 2 else 2 * k + 1)"

definition best_inv :: "nat \<Rightarrow> entry multiset \<Rightarrow> entry list \<Rightarrow> bool" where
  "best_inv k seen h =
     (is_heap h \<and> mset h \<subseteq># seen \<and> length h = min k (size seen) \<and>
      (\<forall>x y. x \<in># mset h \<and> y \<in># seen - mset h \<longrightarrow> cnt y \<le> cnt x))"

definition weight_sum :: "entry list \<Rightarrow> string \<Rightarrow> int" where
  "weight_sum elements k = sum_list (map (\<lambda>e. sint (snd e)) (filter (\<lambda>e. fst e = k) elements))"

section \<open>The window machinery of the specification\<close>

text \<open>
  The program builds its windows with one call of the stream framework (line 44: sliding
  windows of one minute that start every five seconds); the framework assigns elements to
  windows, keeps the state of each window, fires \<open>process\<close> when a window ends and
  discards the state. None of that code is in the repository. The definitions of this
  section follow the specification instead, sections 3 and 4, which describes the same
  machinery as explicit components. Times and durations are integers (the unit does not
  matter), and a window instance is named by its start: its end is the start plus the
  window size.
\<close>

text \<open>
  Modelled from the spec: the \<open>WindowSpec\<close> of section 3, with the configuration names
  of section 6, and its invariant: the size is a positive multiple of the slide.
\<close>

record window_spec =
  windowSize :: int
  windowSlide :: int

definition well_formed :: "window_spec \<Rightarrow> bool" where
  "well_formed ws =
     (0 < windowSlide ws \<and> 0 < windowSize ws \<and> windowSize ws mod windowSlide ws = 0)"

text \<open>
  Modelled from the spec: the reference configuration, 60 seconds every 5 seconds (line 44
  of the program: \<open>Time.minutes(1)\<close>, \<open>Time.seconds(5)\<close>), and the \<open>Event\<close> of
  section 3.
\<close>

definition reference_spec :: window_spec where
  "reference_spec = \<lparr>windowSize = 60, windowSlide = 5\<rparr>"

record event =
  key :: string
  occurredAt :: int
  weight :: "32 word"

text \<open>
  Modelled from the spec: the Window Assigner (section 4.1), in the program the
  framework's sliding-window assigner. ``An event at time \<open>t\<close> belongs to every window
  instance whose \<open>start \<le> t < start + size\<close> and whose start is a multiple of
  \<open>slide\<close>'': the starts run through \<open>t - size + 1, \<dots>, t\<close>.
\<close>

definition assign :: "int \<Rightarrow> window_spec \<Rightarrow> int list" where
  "assign t ws = filter (\<lambda>start. start mod windowSlide ws = 0) [t - windowSize ws + 1 .. t]"

text \<open>
  Modelled from the spec: the Per-Key Window Store (section 4.2), in the program the
  framework's per-window state. The store maps \<open>(windowInstance, key)\<close> to the running
  count; its \<open>increment\<close> is the update of line 65 at the key \<open>(windowInstance, key)\<close>.
  \<open>snapshot\<close> returns the counts of one window instance, \<open>evict\<close> removes them.
\<close>

type_synonym window_store = "(int \<times> string) \<rightharpoonup> 32 word"

definition snapshot :: "int \<Rightarrow> window_store \<Rightarrow> (string \<rightharpoonup> 32 word)" where
  "snapshot w st = (\<lambda>k. st (w, k))"

definition evict :: "int \<Rightarrow> window_store \<Rightarrow> window_store" where
  "evict w st = (\<lambda>(w', k). if w' = w then None else st (w', k))"

text \<open>
  Modelled from the spec: the lifecycle of a window instance (sections 3 and 4.4), the
  emitted snapshot, and the state of the aggregator: the store, the state of every window
  instance created so far (\<open>None\<close> for one that no event has referenced yet), the
  instances in the order of their creation, the snapshots handed to the sink, and the
  late-event metric.
\<close>

datatype wstatus = Open | Closing | Closed

record TopKSnapshot =
  windowStart :: int
  windowEnd :: int
  entries :: "entry list"

record aggregator =
  store :: window_store
  status :: "int \<rightharpoonup> wstatus"
  instances :: "int list"
  emitted :: "TopKSnapshot list"
  late :: nat

record config =
  spec :: window_spec
  topK :: nat
  slack :: int

datatype agg_error = InvalidEvent

definition initial :: aggregator where
  "initial = \<lparr>store = Map.empty, status = Map.empty, instances = [], emitted = [], late = 0\<rparr>"

text \<open>
  Modelled from the spec: what \<open>ingest\<close> does for one window instance of the event
  (sections 3, 4.4 item 3 and 7). An instance is created open by the first event that
  references it; an open instance gets the increment; for an instance that has entered
  \<open>Closing\<close> or is \<open>Closed\<close> the event is dropped and the late-event metric counts it.
\<close>

definition route :: "event \<Rightarrow> int \<Rightarrow> aggregator \<Rightarrow> aggregator" where
  "route ev w agg =
     (case status agg w of
        None \<Rightarrow> agg\<lparr>store := increment (store agg) (w, key ev) (weight ev),
                     status := (status agg)(w \<mapsto> Open),
                     instances := instances agg @ [w]\<rparr>
      | Some Open \<Rightarrow> agg\<lparr>store := increment (store agg) (w, key ev) (weight ev)\<rparr>
      | Some _ \<Rightarrow> agg\<lparr>late := late agg + 1\<rparr>)"

text \<open>
  Modelled from the spec: \<open>ingest\<close> of the Aggregator Facade (section 4.5), at the
  current time \<open>now\<close>. An event with an empty key, or with a time further than the
  slack from now, is rejected with \<open>InvalidEvent\<close>; any other event goes through the
  assigner and then to the store for each window instance.
\<close>

definition ingest :: "config \<Rightarrow> int \<Rightarrow> event \<Rightarrow> aggregator \<Rightarrow> agg_error + aggregator" where
  "ingest cfg now ev agg =
     (if key ev = [] \<or> slack cfg < \<bar>occurredAt ev - now\<bar> then Inl InvalidEvent
      else Inr (fold (route ev) (assign (occurredAt ev) (spec cfg)) agg))"

text \<open>
  Modelled from the spec: the Window Scheduler (section 4.4). Closing one instance takes
  the snapshot of its counts, runs the top-K selection, hands the \<open>TopKSnapshot\<close> to
  the sink, evicts the instance's state and marks it closed. The selection is the
  program's \<open>selectTopK\<close>, and \<open>entrySet\<close> is the order in which the snapshot's
  entries are handed to it. A tick at time \<open>now\<close> first moves every open instance whose
  end is not after \<open>now\<close> to \<open>Closing\<close> and then closes every instance that is
  \<open>Closing\<close>.
\<close>

definition close_window ::
  "config \<Rightarrow> ((string \<rightharpoonup> 32 word) \<Rightarrow> entry list) \<Rightarrow> int \<Rightarrow> aggregator \<Rightarrow> aggregator" where
  "close_window cfg entrySet w agg =
     (let counts = snapshot w (store agg);
          snap = \<lparr>windowStart = w, windowEnd = w + windowSize (spec cfg),
                  entries = selectTopK (topK cfg) (entrySet counts)\<rparr>
      in agg\<lparr>emitted := emitted agg @ [snap],
             store := evict w (store agg),
             status := (status agg)(w \<mapsto> Closed)\<rparr>)"

definition tick ::
  "config \<Rightarrow> ((string \<rightharpoonup> 32 word) \<Rightarrow> entry list) \<Rightarrow> int \<Rightarrow> aggregator \<Rightarrow> aggregator" where
  "tick cfg entrySet now agg =
     (let due = (\<lambda>w. status agg w = Some Open \<and> w + windowSize (spec cfg) \<le> now);
          agg1 = agg\<lparr>status := (\<lambda>w. if due w then Some Closing else status agg w)\<rparr>
      in fold (\<lambda>w a. if status a w = Some Closing then close_window cfg entrySet w a else a)
              (instances agg1) agg1)"

text \<open>
  Modelled from the spec: a run of the aggregator, which is any sequence of events
  arriving at given times (the caller swallows the error of a rejected event, section 4.5,
  so it leaves the state as it is) and ticks of the scheduler; and the instances that no
  longer take events (section 4.4, item 3).
\<close>

datatype operation = Ingest int event | Tick int

fun exec ::
  "config \<Rightarrow> ((string \<rightharpoonup> 32 word) \<Rightarrow> entry list) \<Rightarrow> operation \<Rightarrow> aggregator \<Rightarrow> aggregator" where
  "exec cfg entrySet (Ingest now ev) agg =
     (case ingest cfg now ev agg of Inl _ \<Rightarrow> agg | Inr agg' \<Rightarrow> agg')"
| "exec cfg entrySet (Tick now) agg = tick cfg entrySet now agg"

definition execute ::
  "config \<Rightarrow> ((string \<rightharpoonup> 32 word) \<Rightarrow> entry list) \<Rightarrow> operation list \<Rightarrow> aggregator \<Rightarrow> aggregator" where
  "execute cfg entrySet ops agg = fold (exec cfg entrySet) ops agg"

definition is_closed :: "aggregator \<Rightarrow> int \<Rightarrow> bool" where
  "is_closed agg w = (status agg w = Some Closing \<or> status agg w = Some Closed)"

text \<open>
  Modelled from the spec: what the late-event property of section 8 asks of two states,
  for an instance \<open>w\<close> that is closed in the first. In the second it is still closed, the
  sink has received nothing more for it, and the store holds for it what it held before.
\<close>

definition untouched :: "int \<Rightarrow> aggregator \<Rightarrow> aggregator \<Rightarrow> bool" where
  "untouched w agg agg' =
     (status agg' w = Some Closed \<and>
      (\<exists>new. emitted agg' = emitted agg @ new \<and> (\<forall>s \<in> set new. windowStart s \<noteq> w)) \<and>
      (\<forall>k. store agg' (w, k) = store agg (w, k)))"

text \<open>
  An iteration order for the examples: the entries of a map whose keys are among
  \<open>keys\<close>, in the order of \<open>keys\<close>.
\<close>

definition entrySet_of :: "string list \<Rightarrow> (string \<rightharpoonup> 32 word) \<Rightarrow> entry list" where
  "entrySet_of keys m = concat (map (\<lambda>k. case m k of None \<Rightarrow> [] | Some v \<Rightarrow> [(k, v)]) keys)"

section \<open>Proofs: the broadcast relay\<close>

lemma on_connection_Inr:
  "on_connection m c r = Inr (m(r \<mapsto> set_add c (case m r of None \<Rightarrow> [] | Some ms \<Rightarrow> ms)))"
  by (auto simp: on_connection_def Let_def split: option.splits)

lemma on_close_Inr:
  "m r = Some ms \<Longrightarrow>
   on_close m c r = Inr (if set_delete c ms = [] then m(r := None) else m(r \<mapsto> set_delete c ms))"
  by (auto simp: on_close_def Let_def split: option.splits)

lemma removeAll_Nil_D: "removeAll c ms = [] \<Longrightarrow> x \<in> set ms \<Longrightarrow> x = c"
  using set_removeAll[of c ms] by auto

lemma step_inv:
  assumes "server_inv s"
  shows "\<exists>s' out. step s e = Inr (s', out) \<and> server_inv s'"
proof (cases e)
  case (Connection p)
  then show ?thesis using assms
    apply (simp add: on_connection_Inr Let_def)
    apply (auto simp: server_inv_def rooms_nonempty_def set_add_def split: option.splits if_splits)
       apply (metis less_irrefl less_SucI)+
    done
next
  case (Message c d)
  then show ?thesis using assms
    by (auto simp: on_message_def server_inv_def split: option.splits)
next
  case (Close c)
  show ?thesis
  proof (cases "handlers s c")
    case None
    with Close assms show ?thesis by simp
  next
    case (Some r)
    with assms obtain ms where ms: "rooms s r = Some ms" "c \<in> set ms"
      by (auto simp: server_inv_def)
    from Close Some ms assms show ?thesis
      apply (simp add: on_close_Inr)
      apply (auto simp: server_inv_def rooms_nonempty_def set_delete_def distinct_removeAll
                  split: option.splits if_splits)
        apply (metis option.inject)
       apply (metis removeAll_Nil_D)
      apply (metis option.inject)
      done
  qed
next
  case (ReadyState c st)
  then show ?thesis using assms by (auto simp: server_inv_def)
qed

lemma run_inv: "server_inv s \<Longrightarrow> \<exists>s'. run s evs = Inr s' \<and> server_inv s'"
proof (induction evs arbitrary: s)
  case Nil
  then show ?case by simp
next
  case (Cons e evs)
  from step_inv [OF Cons.prems, of e] obtain s1 out
    where "step s e = Inr (s1, out)" and "server_inv s1" by blast
  with Cons.IH [of s1] show ?case by simp
qed

lemma init_inv: "server_inv init"
  by (simp add: server_inv_def init_def rooms_nonempty_def)

text \<open>
  C10: in every state the server reaches, whatever the events, no handler has thrown and
  every room id present in \<open>rooms\<close> maps to a non-empty set. A connection leaves the
  socket in its room's set (created first when the room is new); a close removes the
  socket and deletes the room's entry exactly when no other member is left.
\<close>

theorem rooms_never_empty:
  "(\<exists>s. run init evs = Inr s \<and> rooms_nonempty (rooms s)) \<and>
   (rooms_nonempty m \<longrightarrow>
      (\<exists>m' members. on_connection m c r = Inr m' \<and> rooms_nonempty m' \<and>
          m' r = Some members \<and> c \<in> set members)) \<and>
   (rooms_nonempty m \<and> m r = Some ms \<longrightarrow>
      (\<exists>m'. on_close m c r = Inr m' \<and> rooms_nonempty m' \<and>
          m' r = (if set ms \<subseteq> {c} then None else Some (removeAll c ms))))"
proof (intro conjI impI)
  from run_inv [OF init_inv, of evs]
  show "\<exists>s. run init evs = Inr s \<and> rooms_nonempty (rooms s)"
    by (auto simp: server_inv_def)
next
  assume "rooms_nonempty m"
  then show "\<exists>m' members. on_connection m c r = Inr m' \<and> rooms_nonempty m' \<and>
          m' r = Some members \<and> c \<in> set members"
    by (auto simp: on_connection_Inr rooms_nonempty_def set_add_def split: option.splits)
next
  assume a: "rooms_nonempty m \<and> m r = Some ms"
  have e: "removeAll c ms = [] \<longleftrightarrow> set ms \<subseteq> {c}"
    using set_removeAll [of c ms] by (metis Diff_eq_empty_iff set_empty)
  from a show "\<exists>m'. on_close m c r = Inr m' \<and> rooms_nonempty m' \<and>
          m' r = (if set ms \<subseteq> {c} then None else Some (removeAll c ms))"
    by (auto simp: on_close_Inr rooms_nonempty_def set_delete_def e)
qed

theorem rooms_never_empty_witness:
  "(\<exists>s. run init [Connection (Some ''a''), Connection None, Connection (Some ''''), Close 0] = Inr s \<and>
        rooms s ''lobby'' = Some [1, 2] \<and> rooms s ''a'' = None) \<and>
   (\<exists>m'. on_connection [''a'' \<mapsto> [0]] 0 ''a'' = Inr m' \<and> m' ''a'' = Some [0]) \<and>
   (\<exists>m'. on_close [''a'' \<mapsto> [0]] 0 ''a'' = Inr m' \<and> m' ''a'' = None)"
proof -
  have n: "rooms_nonempty [''a'' \<mapsto> [0]]" by (simp add: rooms_nonempty_def)
  note t = rooms_never_empty [of
      "[Connection (Some ''a''), Connection None, Connection (Some ''''), Close 0]"
      "[''a'' \<mapsto> [0]]" 0 "''a''" "[0]"]
  from t n show ?thesis
    by (simp add: init_def on_connection_def on_close_def roomId_of_def set_add_def
        set_delete_def Let_def)
qed

text \<open>
  C9: in a reachable state, a message from a connected socket whose handlers hold room
  \<open>R\<close> is sent, once each and with the payload unchanged, to exactly the members of
  \<open>R\<close> that are not the sender and whose \<open>readyState\<close> is \<open>OPEN\<close>; a member
  of any other room is not among the recipients.
\<close>

theorem broadcast_recipients:
  assumes "run init evs = Inr s" and "handlers s sender = Some R"
  shows "\<exists>members sends.
           rooms s R = Some members \<and> sender \<in> set members \<and>
           step s (Message sender data) = Inr (s, sends) \<and>
           sends = map (\<lambda>c. (c, data)) (filter (\<lambda>c. c \<noteq> sender \<and> ready s c = OPEN) members) \<and>
           distinct (map fst sends) \<and>
           fst ` set sends = {c \<in> set members. c \<noteq> sender \<and> ready s c = OPEN} \<and>
           (\<forall>R' members' c. R' \<noteq> R \<and> rooms s R' = Some members' \<and> c \<in> set members'
               \<longrightarrow> c \<notin> fst ` set sends)"
proof -
  from run_inv [OF init_inv, of evs] assms(1) have inv: "server_inv s" by simp
  from inv assms(2) obtain members where m: "rooms s R = Some members" "sender \<in> set members"
    by (auto simp: server_inv_def)
  from inv m have d: "distinct members" by (auto simp: server_inv_def)
  let ?sends = "map (\<lambda>c. (c, data)) (filter (\<lambda>c. c \<noteq> sender \<and> ready s c = OPEN) members)"
  have st: "step s (Message sender data) = Inr (s, ?sends)"
    using assms(2) m by (simp add: on_message_def)
  have fs: "map fst ?sends = filter (\<lambda>c. c \<noteq> sender \<and> ready s c = OPEN) members"
    by (simp add: comp_def)
  have other: "c \<notin> set members" if "R' \<noteq> R" "rooms s R' = Some members'" "c \<in> set members'"
    for R' members' c
  proof
    assume "c \<in> set members"
    with inv m have "handlers s c = Some R" by (auto simp: server_inv_def)
    moreover from inv that have "handlers s c = Some R'" by (auto simp: server_inv_def)
    ultimately show False using that(1) by simp
  qed
  have img: "fst ` set ?sends = {c \<in> set members. c \<noteq> sender \<and> ready s c = OPEN}"
    by force
  show ?thesis
    using m st d other fs img by (intro exI [of _ members] exI [of _ ?sends]) auto
qed

theorem broadcast_recipients_witness:
  "\<exists>s. run init [Connection (Some ''a''), Connection (Some ''b''), Connection (Some ''a''),
                  Connection (Some ''a''), ReadyState 3 CLOSING] = Inr s \<and>
       handlers s 0 = Some ''a'' \<and> rooms s ''a'' = Some [0, 2, 3] \<and> rooms s ''b'' = Some [1] \<and>
       step s (Message 0 ''hello'') = Inr (s, [(2, ''hello'')])"
  using broadcast_recipients [of "[Connection (Some ''a''), Connection (Some ''b''),
      Connection (Some ''a''), Connection (Some ''a''), ReadyState 3 CLOSING]" _ 0 "''a''" "''hello''"]
  by (simp add: init_def on_connection_def on_message_def roomId_of_def set_add_def Let_def)

section \<open>Proofs: the redirect service\<close>

lemma chars_length: "length chars = 62" by (simp add: chars_def)

lemma generateShortUrl_loop_eq:
  "i \<le> 6 \<Longrightarrow> generateShortUrl_loop rnd calls i s =
     (s @ concat (map (\<lambda>j. charAt chars (rnd (calls + j))) [0..<6 - i]), calls + (6 - i))"
proof (induction rnd calls i s rule: generateShortUrl_loop.induct)
  case (1 rnd calls i s)
  show ?case
  proof (cases "i < 6")
    case True
    then have "[0..<6 - i] = 0 # map Suc [0..<6 - Suc i]"
      by (metis Suc_diff_Suc map_Suc_upt upt_conv_Cons zero_less_diff)
    with True 1 show ?thesis
      by (subst generateShortUrl_loop.simps) (simp add: comp_def)
  next
    case False
    with 1 show ?thesis by (subst generateShortUrl_loop.simps) simp
  qed
qed

lemma generateShortUrl_eq:
  "generateShortUrl rnd calls =
     (concat (map (\<lambda>j. charAt chars (rnd (calls + j))) [0..<6]), calls + 6)"
  by (simp add: generateShortUrl_def generateShortUrl_loop_eq)

lemma generateShortUrl_calls: "snd (generateShortUrl rnd calls) = calls + 6"
  by (simp add: generateShortUrl_eq)

lemma generateShortUrl_shape:
  assumes "\<forall>n. rnd n < 62"
  shows "length (fst (generateShortUrl rnd calls)) = 6 \<and>
         set (fst (generateShortUrl rnd calls)) \<subseteq> set chars"
proof -
  have one: "charAt chars (rnd n) = [chars ! rnd n]" for n
    using assms by (simp add: charAt_def chars_length)
  have six: "[0..<6] = [0, 1, 2, 3, 4, 5::nat]"
    by (simp add: upt_rec)
  have mem: "chars ! rnd n \<in> set chars" for n
    using assms by (simp add: chars_length)
  show ?thesis
    by (simp add: generateShortUrl_eq one six mem)
qed

lemma unique_shortUrl_sound:
  assumes "unique_shortUrl rnd m calls = Some r"
  shows "m (fst r) = None \<and>
         (\<exists>n. fst r = candidate rnd calls n \<and> snd r = calls + 6 * Suc n)"
proof (rule unique_shortUrl.raw_induct [where P = "\<lambda>rnd m calls r.
    m (fst r) = None \<and> (\<exists>n. fst r = candidate rnd calls n \<and> snd r = calls + 6 * Suc n)",
    rotated, OF assms])
  fix f rnd m calls r
  assume IH: "\<And>rnd m calls r. f rnd m calls = Some r \<Longrightarrow>
     m (fst r) = None \<and> (\<exists>n. fst r = candidate rnd calls n \<and> snd r = calls + 6 * Suc n)"
    and body: "(case generateShortUrl rnd calls of
        (shortUrl, calls') \<Rightarrow>
          if m shortUrl \<noteq> None then f rnd m calls' else Some (shortUrl, calls')) = Some r"
  obtain s where g: "generateShortUrl rnd calls = (s, calls + 6)"
    by (simp add: generateShortUrl_eq)
  show "m (fst r) = None \<and>
        (\<exists>n. fst r = candidate rnd calls n \<and> snd r = calls + 6 * Suc n)"
  proof (cases "m s = None")
    case True
    with body g have "r = (s, calls + 6)" by simp
    with True g show ?thesis
      by (auto simp: candidate_def intro!: exI [of _ 0])
  next
    case False
    with body g have "f rnd m (calls + 6) = Some r" by simp
    from IH [OF this] obtain n where
      "m (fst r) = None" "fst r = candidate rnd (calls + 6) n" "snd r = calls + 6 + 6 * Suc n"
      by blast
    then show ?thesis
      by (auto simp: candidate_def add.assoc intro!: exI [of _ "Suc n"])
  qed
qed

lemma unique_shortUrl_returns:
  "m (candidate rnd calls n) = None \<Longrightarrow> \<exists>r. unique_shortUrl rnd m calls = Some r"
proof (induction n arbitrary: calls)
  case 0
  then show ?case
    by (subst unique_shortUrl.simps) (auto simp: candidate_def split: prod.splits)
next
  case (Suc n)
  have "candidate rnd (calls + 6) n = candidate rnd calls (Suc n)"
    by (simp add: candidate_def add.assoc)
  with Suc.prems Suc.IH [of "calls + 6"]
  obtain r where "unique_shortUrl rnd m (calls + 6) = Some r" by auto
  then show ?case
    by (subst unique_shortUrl.simps) (auto simp: generateShortUrl_eq)
qed

lemma unique_shortUrl_never:
  "\<forall>n. m (candidate rnd calls n) \<noteq> None \<Longrightarrow> unique_shortUrl rnd m calls = None"
proof (cases "unique_shortUrl rnd m calls")
  case None
  then show ?thesis .
next
  case (Some r)
  assume all: "\<forall>n. m (candidate rnd calls n) \<noteq> None"
  from unique_shortUrl_sound [OF Some] obtain n where
    "m (fst r) = None" "fst r = candidate rnd calls n" by blast
  with all show ?thesis by metis
qed

lemma unique_shortUrl_may_not_return:
  "unique_shortUrl (\<lambda>_. 0) [''AAAAAA'' \<mapsto> v] calls = None"
proof (rule unique_shortUrl_never, rule allI)
  fix n
  have "[0..<6] = [0, 1, 2, 3, 4, 5::nat]" by (simp add: upt_rec)
  then have "candidate (\<lambda>_. 0) calls n = ''AAAAAA''"
    by (simp add: candidate_def generateShortUrl_eq charAt_def chars_def)
  then show "[''AAAAAA'' \<mapsto> v] (candidate (\<lambda>_. 0) calls n) \<noteq> None" by simp
qed

lemma candidate_drawn:
  assumes "\<forall>n. rnd n < 62"
  shows "candidate rnd calls n = drawn rnd calls n"
proof -
  have one: "charAt chars (rnd i) = [chars ! rnd i]" for i
    using assms by (simp add: charAt_def chars_length)
  have six: "[0..<6] = [0, 1, 2, 3, 4, 5::nat]"
    by (simp add: upt_rec)
  show ?thesis
    by (simp add: candidate_def generateShortUrl_eq one six drawn_def add.assoc)
qed

lemma unique_shortUrl_first:
  "m (candidate rnd calls n) = None \<Longrightarrow> \<forall>i<n. m (candidate rnd calls i) \<noteq> None \<Longrightarrow>
     unique_shortUrl rnd m calls = Some (candidate rnd calls n, calls + 6 * Suc n)"
proof (induction n arbitrary: calls)
  case 0
  then show ?case
    by (subst unique_shortUrl.simps) (simp add: candidate_def generateShortUrl_eq)
next
  case (Suc n)
  have shift: "candidate rnd (calls + 6) i = candidate rnd calls (Suc i)" for i
    by (simp add: candidate_def add.assoc)
  from Suc.prems(2) have taken: "m (candidate rnd calls 0) \<noteq> None" by blast
  have "m (candidate rnd (calls + 6) n) = None"
    using Suc.prems(1) by (simp add: shift)
  moreover have "\<forall>i<n. m (candidate rnd (calls + 6) i) \<noteq> None"
    using Suc.prems(2) by (simp add: shift)
  ultimately have "unique_shortUrl rnd m (calls + 6) =
      Some (candidate rnd (calls + 6) n, calls + 6 + 6 * Suc n)"
    by (rule Suc.IH)
  then have r: "unique_shortUrl rnd m (calls + 6) =
      Some (candidate rnd calls (Suc n), calls + 6 * Suc (Suc n))"
    by (simp add: shift)
  from taken have t: "m (fst (generateShortUrl rnd calls)) \<noteq> None"
    by (simp add: candidate_def)
  show ?case
    by (subst unique_shortUrl.simps) (use t r in \<open>auto simp: generateShortUrl_eq\<close>)
qed

text \<open>
  C8, as the code has it. Take a request whose \<open>longUrl\<close> is a non-empty string, and
  read the rounds of the retry loop off the random draws. If round \<open>n\<close> is the first
  whose six draws spell a string that is not yet a key of \<open>urlMap\<close>, the handler
  answers with status 200 and exactly that string as \<open>shortUrl\<close>: six characters of
  \<open>chars\<close>, not a key before; afterwards \<open>urlMap\<close> maps it to the submitted
  \<open>longUrl\<close>, the GET handler redirects there, and \<open>6(n+1)\<close> draws have been used.
  If every round spells a key that is taken, the handler never answers. A request without
  \<open>longUrl\<close> is answered 400 and the state is unchanged.
\<close>

theorem shorten_answers_first_unused:
  assumes "\<forall>n. rnd n < 62"
  shows
   "(field body ''longUrl'' = JStr u \<and> u \<noteq> [] \<longrightarrow>
      (urlMap s (drawn rnd (random_calls s) n) = None \<and>
       (\<forall>i<n. urlMap s (drawn rnd (random_calls s) i) \<noteq> None) \<longrightarrow>
         post_shorten rnd s body =
           Some (s\<lparr>urlMap := (urlMap s)(drawn rnd (random_calls s) n \<mapsto> JStr u),
                   random_calls := random_calls s + 6 * Suc n\<rparr>,
                 Json 200 [(''shortUrl'', JStr (drawn rnd (random_calls s) n)),
                           (''longUrl'', JStr u)]) \<and>
         length (drawn rnd (random_calls s) n) = 6 \<and>
         set (drawn rnd (random_calls s) n) \<subseteq> set chars \<and>
         get_url (s\<lparr>urlMap := (urlMap s)(drawn rnd (random_calls s) n \<mapsto> JStr u),
                    random_calls := random_calls s + 6 * Suc n\<rparr>)
                 (drawn rnd (random_calls s) n) = Redirect (JStr u)) \<and>
      ((\<forall>i. urlMap s (drawn rnd (random_calls s) i) \<noteq> None) \<longrightarrow>
         post_shorten rnd s body = None)) \<and>
    (body ''longUrl'' = None \<longrightarrow>
       post_shorten rnd s body = Some (s, Json 400 [(''error'', JStr ''Long URL is required'')]))"
proof (intro conjI impI)
  assume b: "field body ''longUrl'' = JStr u \<and> u \<noteq> []"
    and f: "urlMap s (drawn rnd (random_calls s) n) = None \<and>
            (\<forall>i<n. urlMap s (drawn rnd (random_calls s) i) \<noteq> None)"
  from f have "unique_shortUrl rnd (urlMap s) (random_calls s) =
      Some (drawn rnd (random_calls s) n, random_calls s + 6 * Suc n)"
    using unique_shortUrl_first [of "urlMap s" rnd "random_calls s" n]
    by (simp add: candidate_drawn [OF assms])
  with b show "post_shorten rnd s body =
           Some (s\<lparr>urlMap := (urlMap s)(drawn rnd (random_calls s) n \<mapsto> JStr u),
                   random_calls := random_calls s + 6 * Suc n\<rparr>,
                 Json 200 [(''shortUrl'', JStr (drawn rnd (random_calls s) n)),
                           (''longUrl'', JStr u)])"
    by (simp add: post_shorten_def Let_def)
  show "length (drawn rnd (random_calls s) n) = 6" by (simp add: drawn_def)
  show "set (drawn rnd (random_calls s) n) \<subseteq> set chars"
    using assms by (simp add: drawn_def chars_length)
  from b show "get_url (s\<lparr>urlMap := (urlMap s)(drawn rnd (random_calls s) n \<mapsto> JStr u),
                    random_calls := random_calls s + 6 * Suc n\<rparr>)
                 (drawn rnd (random_calls s) n) = Redirect (JStr u)"
    by (simp add: get_url_def field_def Let_def)
next
  assume b: "field body ''longUrl'' = JStr u \<and> u \<noteq> []"
    and a: "\<forall>i. urlMap s (drawn rnd (random_calls s) i) \<noteq> None"
  from a have "unique_shortUrl rnd (urlMap s) (random_calls s) = None"
    by (intro unique_shortUrl_never) (simp add: candidate_drawn [OF assms])
  with b show "post_shorten rnd s body = None"
    by (simp add: post_shorten_def Let_def)
next
  assume "body ''longUrl'' = None"
  then show "post_shorten rnd s body = Some (s, Json 400 [(''error'', JStr ''Long URL is required'')])"
    by (simp add: post_shorten_def field_def Let_def)
qed

text \<open>
  The theorem at a source whose first round spells \<open>AAAAAA\<close>, which is taken, and whose
  second round spells \<open>BBBBBB\<close>.
\<close>

theorem shorten_answers_first_unused_witness:
  "(\<forall>n. (if n < 6 then 0 else 1::nat) < 62) \<and>
   field [''longUrl'' \<mapsto> JStr ''https://example.com''] ''longUrl'' = JStr ''https://example.com'' \<and>
   drawn (\<lambda>n. if n < 6 then 0 else 1) 0 0 = ''AAAAAA'' \<and>
   drawn (\<lambda>n. if n < 6 then 0 else 1) 0 1 = ''BBBBBB'' \<and>
   post_shorten (\<lambda>n. if n < 6 then 0 else 1)
      \<lparr>urlMap = [''AAAAAA'' \<mapsto> JStr ''https://a.example''], random_calls = 0\<rparr>
      [''longUrl'' \<mapsto> JStr ''https://example.com''] =
     Some (\<lparr>urlMap = [''AAAAAA'' \<mapsto> JStr ''https://a.example'',
                        ''BBBBBB'' \<mapsto> JStr ''https://example.com''], random_calls = 12\<rparr>,
           Json 200 [(''shortUrl'', JStr ''BBBBBB''), (''longUrl'', JStr ''https://example.com'')]) \<and>
   get_url \<lparr>urlMap = [''AAAAAA'' \<mapsto> JStr ''https://a.example'',
                        ''BBBBBB'' \<mapsto> JStr ''https://example.com''], random_calls = 12\<rparr> ''BBBBBB'' =
     Redirect (JStr ''https://example.com'') \<and>
   post_shorten (\<lambda>n. if n < 6 then 0 else 1)
      \<lparr>urlMap = [''AAAAAA'' \<mapsto> JStr ''https://a.example''], random_calls = 0\<rparr> Map.empty =
     Some (\<lparr>urlMap = [''AAAAAA'' \<mapsto> JStr ''https://a.example''], random_calls = 0\<rparr>,
           Json 400 [(''error'', JStr ''Long URL is required'')])"
proof -
  let ?rnd = "\<lambda>n. if n < 6 then 0 else 1::nat"
  let ?s = "\<lparr>urlMap = [''AAAAAA'' \<mapsto> JStr ''https://a.example''], random_calls = 0\<rparr>"
  let ?u = "''https://example.com''"
  have h: "\<forall>n. ?rnd n < 62" by simp
  have d0: "drawn ?rnd 0 0 = ''AAAAAA''" and d1: "drawn ?rnd 0 1 = ''BBBBBB''"
    by (simp_all add: drawn_def chars_def)
  have lt: "\<forall>i<Suc 0. urlMap ?s (drawn ?rnd (random_calls ?s) i) \<noteq> None"
    using d0 by simp
  note t = shorten_answers_first_unused [OF h, of "[''longUrl'' \<mapsto> JStr ?u]" ?u ?s 1]
  note t0 = shorten_answers_first_unused [OF h, of Map.empty "[]" ?s 0]
  from t lt d1 have p: "post_shorten ?rnd ?s [''longUrl'' \<mapsto> JStr ?u] =
     Some (\<lparr>urlMap = [''AAAAAA'' \<mapsto> JStr ''https://a.example'',
                        ''BBBBBB'' \<mapsto> JStr ?u], random_calls = 12\<rparr>,
           Json 200 [(''shortUrl'', JStr ''BBBBBB''), (''longUrl'', JStr ?u)])"
    by (simp add: field_def)
  from t lt d1 have g: "get_url \<lparr>urlMap = [''AAAAAA'' \<mapsto> JStr ''https://a.example'',
                        ''BBBBBB'' \<mapsto> JStr ?u], random_calls = 12\<rparr> ''BBBBBB'' =
     Redirect (JStr ?u)"
    by (simp add: field_def)
  from t0 have n: "post_shorten ?rnd ?s Map.empty =
     Some (?s, Json 400 [(''error'', JStr ''Long URL is required'')])"
    by simp
  from h d0 d1 p g n show ?thesis by (simp add: field_def)
qed

text \<open>
  C8 as stated fails: nothing bounds the retry loop. With \<open>AAAAAA\<close> taken and a source
  that selects the first character at every draw, each round spells \<open>AAAAAA\<close> again
  and the request with a non-empty \<open>longUrl\<close> gets no response at all.
\<close>

theorem shorten_never_answers_counterexample:
  "field [''longUrl'' \<mapsto> JStr ''https://example.com''] ''longUrl'' = JStr ''https://example.com'' \<and>
   constant_source 0 < 62 \<and>
   drawn constant_source 0 0 = ''AAAAAA'' \<and>
   post_shorten constant_source
      \<lparr>urlMap = [''AAAAAA'' \<mapsto> JStr ''https://a.example''], random_calls = 0\<rparr>
      [''longUrl'' \<mapsto> JStr ''https://example.com''] = None"
proof -
  have c: "constant_source = (\<lambda>_. 0)"
    by (intro ext) (simp add: constant_source_def)
  have "unique_shortUrl constant_source [''AAAAAA'' \<mapsto> JStr ''https://a.example''] 0 = None"
    unfolding c by (rule unique_shortUrl_may_not_return)
  then show ?thesis
    by (simp add: post_shorten_def field_def Let_def drawn_def constant_source_def chars_def)
qed

section \<open>Proofs: the top-K aggregator\<close>

lemma sint_eq_iff: "(sint (a::32 word) = sint b) = (a = b)"
  by (auto intro: signed_word_eqI)

lemma heap_cmp_ge0: "(0 \<le> heap_cmp x e) = (cnt e \<le> cnt x)"
  by (auto simp: heap_cmp_def compare_int_def sint_eq_iff [symmetric])

lemma heap_cmp_gt0: "(0 < heap_cmp a b) = (cnt b < cnt a)"
  by (auto simp: heap_cmp_def compare_int_def sint_eq_iff [symmetric])

lemma heap_cmp_le0: "(heap_cmp x c \<le> 0) = (cnt x \<le> cnt c)"
  by (auto simp: heap_cmp_def compare_int_def sint_eq_iff [symmetric])

lemma siftUp_length: "length (siftUp k x es) = length es"
  by (induction k x es rule: siftUp.induct) (subst siftUp.simps, simp add: Let_def)

lemma siftUp_mset: "k < length es \<Longrightarrow> mset (siftUp k x es) = mset (es[k := x])"
proof (induction k x es rule: siftUp.induct)
  case (1 k x es)
  show ?case
  proof (cases "k > 0 \<and> \<not> heap_cmp x (es ! ((k - 1) div 2)) \<ge> 0")
    case True
    let ?p = "(k - 1) div 2"
    from True 1(2) have p: "?p < k" "?p < length es" by auto
    have "mset (siftUp k x es) = mset (siftUp ?p x (es[k := es ! ?p]))"
      using True by (subst siftUp.simps) (simp add: Let_def)
    also have "\<dots> = mset (es[k := es ! ?p, ?p := x])"
      using 1(1) [of ?p "es ! ?p"] True p by simp
    also have "\<dots> = mset (es[k := x])"
      using p 1(2) by (simp add: mset_update nth_list_update)
    finally show ?thesis .
  next
    case False
    then show ?thesis by (subst siftUp.simps) (auto simp: Let_def)
  qed
qed

lemma siftUp_heap:
  assumes "k < length es"
    and "\<forall>i. 0 < i \<and> i < length es \<and> i \<noteq> k \<longrightarrow> cnt (es ! ((i - 1) div 2)) \<le> cnt (es ! i)"
    and "\<forall>i. 0 < i \<and> i < length es \<and> (i - 1) div 2 = k \<and> 0 < k
            \<longrightarrow> cnt (es ! ((k - 1) div 2)) \<le> cnt (es ! i)"
    and "\<forall>i. 0 < i \<and> i < length es \<and> (i - 1) div 2 = k \<longrightarrow> cnt x \<le> cnt (es ! i)"
  shows "is_heap (siftUp k x es)"
  using assms
proof (induction k x es rule: siftUp.induct)
  case (1 k x es)
  let ?p = "(k - 1) div 2"
  show ?case
  proof (cases "k > 0 \<and> \<not> heap_cmp x (es ! ?p) \<ge> 0")
    case False
    then have r: "siftUp k x es = es[k := x]"
      by (subst siftUp.simps) (auto simp: Let_def)
    from False have c: "k = 0 \<or> cnt (es ! ?p) \<le> cnt x" by (auto simp: heap_cmp_ge0)
    show ?thesis
      unfolding r is_heap_def
    proof (intro allI impI)
      fix i assume i: "0 < i \<and> i < length (es[k := x])"
      show "cnt (es[k := x] ! ((i - 1) div 2)) \<le> cnt (es[k := x] ! i)"
      proof (cases "i = k")
        case True
        with i c 1(2) show ?thesis by (auto simp: nth_list_update)
      next
        case False
        with i 1(2,3,5) show ?thesis by (auto simp: nth_list_update)
      qed
    qed
  next
    case True
    then have lt: "cnt x < cnt (es ! ?p)" and k: "0 < k" by (auto simp: heap_cmp_ge0)
    from k 1(2) have p: "?p < k" "?p < length es" by auto
    let ?es = "es[k := es ! ?p]"
    have r: "siftUp k x es = siftUp ?p x ?es"
      using True by (subst siftUp.simps) (simp add: Let_def)
    have A: "\<forall>i. 0 < i \<and> i < length ?es \<and> i \<noteq> ?p \<longrightarrow> cnt (?es ! ((i - 1) div 2)) \<le> cnt (?es ! i)"
    proof (intro allI impI)
      fix i assume i: "0 < i \<and> i < length ?es \<and> i \<noteq> ?p"
      show "cnt (?es ! ((i - 1) div 2)) \<le> cnt (?es ! i)"
      proof (cases "i = k")
        case True
        with p 1(2) show ?thesis by (simp add: nth_list_update)
      next
        case False
        show ?thesis
        proof (cases "(i - 1) div 2 = k")
          case True
          with False i k 1(2,4) show ?thesis by (simp add: nth_list_update)
        next
          case nk: False
          with False i 1(3) show ?thesis by (simp add: nth_list_update)
        qed
      qed
    qed
    have pp: "0 < ?p \<Longrightarrow> cnt (es ! ((?p - 1) div 2)) \<le> cnt (es ! ?p)"
      using 1(3) p by auto
    have B: "\<forall>i. 0 < i \<and> i < length ?es \<and> (i - 1) div 2 = ?p \<and> 0 < ?p
            \<longrightarrow> cnt (?es ! ((?p - 1) div 2)) \<le> cnt (?es ! i)"
    proof (intro allI impI)
      fix i assume i: "0 < i \<and> i < length ?es \<and> (i - 1) div 2 = ?p \<and> 0 < ?p"
      have q: "(?p - 1) div 2 \<noteq> k" using p i by linarith
      show "cnt (?es ! ((?p - 1) div 2)) \<le> cnt (?es ! i)"
      proof (cases "i = k")
        case True
        with q pp i 1(2) show ?thesis by (simp add: nth_list_update)
      next
        case False
        with i 1(3) have "cnt (es ! ?p) \<le> cnt (es ! i)" by auto
        with False q pp i show ?thesis by (simp add: nth_list_update)
      qed
    qed
    have C: "\<forall>i. 0 < i \<and> i < length ?es \<and> (i - 1) div 2 = ?p \<longrightarrow> cnt x \<le> cnt (?es ! i)"
    proof (intro allI impI)
      fix i assume i: "0 < i \<and> i < length ?es \<and> (i - 1) div 2 = ?p"
      show "cnt x \<le> cnt (?es ! i)"
      proof (cases "i = k")
        case True
        with lt 1(2) show ?thesis by (simp add: nth_list_update)
      next
        case False
        with i 1(3) have "cnt (es ! ?p) \<le> cnt (es ! i)" by auto
        with False lt show ?thesis by (simp add: nth_list_update)
      qed
    qed
    from True have cond: "0 < k" "\<not> 0 \<le> heap_cmp x (es ! ?p)" by auto
    have "is_heap (siftUp ?p x ?es)"
      by (rule 1(1) [OF cond(1) refl refl cond(2)]) (use p A B C in auto)
    with r show ?thesis by simp
  qed
qed

lemma siftDown_length: "length (siftDown k x es n) = length es"
  by (induction k x es n rule: siftDown.induct) (subst siftDown.simps, simp add: Let_def)

lemma siftDown_unfold:
  "siftDown k x es n =
     (if k < n div 2 \<and> \<not> heap_cmp x (es ! min_child es n k) \<le> 0
      then siftDown (min_child es n k) x (es[k := es ! min_child es n k]) n
      else es[k := x])"
  by (subst siftDown.simps) (simp add: Let_def min_child_def)

lemma min_child_bounds:
  "k < n div 2 \<Longrightarrow> k < min_child es n k \<and> min_child es n k < n \<and>
     (min_child es n k - 1) div 2 = k"
  by (auto simp: min_child_def)

lemma min_child_least:
  assumes "k < n div 2" "0 < i" "i < n" "(i - 1) div 2 = k"
  shows "cnt (es ! min_child es n k) \<le> cnt (es ! i)"
proof -
  from assms have "i = 2 * k + 1 \<or> i = 2 * k + 2" by linarith
  with assms show ?thesis
    by (auto simp: min_child_def heap_cmp_gt0)
qed

lemma siftDown_mset:
  "k < length es \<Longrightarrow> n = length es \<Longrightarrow> mset (siftDown k x es n) = mset (es[k := x])"
proof (induction k x es n rule: siftDown.induct)
  case (1 k x es n)
  let ?c = "min_child es n k"
  show ?case
  proof (cases "k < n div 2 \<and> \<not> heap_cmp x (es ! ?c) \<le> 0")
    case True
    with min_child_bounds [of k n es] have c: "k < ?c" "?c < n" by auto
    have "mset (siftDown k x es n) = mset (siftDown ?c x (es[k := es ! ?c]) n)"
      using True by (subst siftDown_unfold) simp
    also have "\<dots> = mset (es[k := es ! ?c, ?c := x])"
    proof -
      from True have a: "k < n div 2" and b: "\<not> heap_cmp x (es ! ?c) \<le> 0" by auto
      have "mset (siftDown ?c x (es[k := es ! ?c]) n) = mset ((es[k := es ! ?c])[?c := x])"
        by (rule 1(1) [OF a refl refl])
           (use b c 1(3) in \<open>auto simp: min_child_def Let_def\<close>)
      then show ?thesis .
    qed
    also have "\<dots> = mset (es[k := x])"
      using c 1(2,3) by (simp add: mset_update nth_list_update)
    finally show ?thesis .
  next
    case False
    then show ?thesis by (subst siftDown_unfold) auto
  qed
qed

lemma siftDown_heap:
  assumes "k < length es" "n = length es"
    and "\<forall>i. 0 < i \<and> i < n \<and> i \<noteq> k \<and> (i - 1) div 2 \<noteq> k
            \<longrightarrow> cnt (es ! ((i - 1) div 2)) \<le> cnt (es ! i)"
    and "0 < k \<longrightarrow> cnt (es ! ((k - 1) div 2)) \<le> cnt x"
    and "\<forall>i. 0 < i \<and> i < n \<and> (i - 1) div 2 = k \<and> 0 < k
            \<longrightarrow> cnt (es ! ((k - 1) div 2)) \<le> cnt (es ! i)"
  shows "is_heap (siftDown k x es n)"
  using assms
proof (induction k x es n rule: siftDown.induct)
  case (1 k x es n)
  let ?c = "min_child es n k"
  show ?case
  proof (cases "k < n div 2 \<and> \<not> heap_cmp x (es ! ?c) \<le> 0")
    case False
    then have r: "siftDown k x es n = es[k := x]"
      by (subst siftDown_unfold) auto
    have below: "cnt x \<le> cnt (es ! i)" if "0 < i" "i < n" "(i - 1) div 2 = k" for i
    proof (cases "k < n div 2")
      case True
      with False have "cnt x \<le> cnt (es ! ?c)" by (simp add: heap_cmp_le0)
      with min_child_least [OF True that, of es] show ?thesis by simp
    next
      case False
      with that show ?thesis by linarith
    qed
    show ?thesis
      unfolding r is_heap_def
    proof (intro allI impI)
      fix i assume i: "0 < i \<and> i < length (es[k := x])"
      show "cnt (es[k := x] ! ((i - 1) div 2)) \<le> cnt (es[k := x] ! i)"
      proof (cases "i = k")
        case True
        with i 1(2,3,5) show ?thesis by (auto simp: nth_list_update)
      next
        case nk: False
        show ?thesis
        proof (cases "(i - 1) div 2 = k")
          case True
          with nk i 1(2,3) below [of i] show ?thesis by (simp add: nth_list_update)
        next
          case False
          with nk i 1(3,4) show ?thesis by (simp add: nth_list_update)
        qed
      qed
    qed
  next
    case True
    then have half: "k < n div 2" and gt: "cnt (es ! ?c) < cnt x"
      by (auto simp: heap_cmp_le0)
    from min_child_bounds [OF half, of es]
    have c: "k < ?c" "?c < n" "(?c - 1) div 2 = k" by auto
    let ?es = "es[k := es ! ?c]"
    have r: "siftDown k x es n = siftDown ?c x ?es n"
      using True by (subst siftDown_unfold) simp
    have A: "\<forall>i. 0 < i \<and> i < n \<and> i \<noteq> ?c \<and> (i - 1) div 2 \<noteq> ?c
            \<longrightarrow> cnt (?es ! ((i - 1) div 2)) \<le> cnt (?es ! i)"
    proof (intro allI impI)
      fix i assume i: "0 < i \<and> i < n \<and> i \<noteq> ?c \<and> (i - 1) div 2 \<noteq> ?c"
      show "cnt (?es ! ((i - 1) div 2)) \<le> cnt (?es ! i)"
      proof (cases "i = k")
        case True
        with i have "(k - 1) div 2 \<noteq> k" by linarith
        with True i c 1(2,3,6) show ?thesis by (simp add: nth_list_update)
      next
        case nk: False
        show ?thesis
        proof (cases "(i - 1) div 2 = k")
          case True
          with nk i 1(2,3) min_child_least [OF half, of i es] show ?thesis
            by (simp add: nth_list_update)
        next
          case False
          with nk i 1(3,4) show ?thesis by (simp add: nth_list_update)
        qed
      qed
    qed
    have B: "0 < ?c \<longrightarrow> cnt (?es ! ((?c - 1) div 2)) \<le> cnt x"
      using c gt 1(2,3) by (simp add: nth_list_update)
    have C: "\<forall>i. 0 < i \<and> i < n \<and> (i - 1) div 2 = ?c \<and> 0 < ?c
            \<longrightarrow> cnt (?es ! ((?c - 1) div 2)) \<le> cnt (?es ! i)"
    proof (intro allI impI)
      fix i assume i: "0 < i \<and> i < n \<and> (i - 1) div 2 = ?c \<and> 0 < ?c"
      with c have ik: "i \<noteq> k" "(i - 1) div 2 \<noteq> k" by linarith+
      with i 1(4) have "cnt (es ! ?c) \<le> cnt (es ! i)" by auto
      with ik c 1(2,3) show "cnt (?es ! ((?c - 1) div 2)) \<le> cnt (?es ! i)"
        by (simp add: nth_list_update)
    qed
    from True have b: "\<not> heap_cmp x (es ! ?c) \<le> 0" by simp
    have "is_heap (siftDown ?c x ?es n)"
      by (rule 1(1) [OF half refl refl]) 
         (use b c A B C 1(3) in \<open>auto simp: min_child_def Let_def\<close>)
    with r show ?thesis by simp
  qed
qed

lemma offer_length: "length (offer e q) = Suc (length q)"
  by (simp add: offer_def siftUp_length)

lemma offer_mset: "mset (offer e q) = add_mset e (mset q)"
  by (simp add: offer_def siftUp_mset)

lemma offer_heap:
  assumes "is_heap q"
  shows "is_heap (offer e q)"
  unfolding offer_def
proof (rule siftUp_heap)
  show "length q < length (q @ [e])" by simp
  show "\<forall>i. 0 < i \<and> i < length (q @ [e]) \<and> i \<noteq> length q \<longrightarrow>
          cnt ((q @ [e]) ! ((i - 1) div 2)) \<le> cnt ((q @ [e]) ! i)"
  proof (intro allI impI)
    fix i assume i: "0 < i \<and> i < length (q @ [e]) \<and> i \<noteq> length q"
    then have "i < length q" "(i - 1) div 2 < length q" by auto
    with i assms show "cnt ((q @ [e]) ! ((i - 1) div 2)) \<le> cnt ((q @ [e]) ! i)"
      by (simp add: nth_append is_heap_def)
  qed
  show "\<forall>i. 0 < i \<and> i < length (q @ [e]) \<and> (i - 1) div 2 = length q \<and> 0 < length q \<longrightarrow>
          cnt ((q @ [e]) ! ((length q - 1) div 2)) \<le> cnt ((q @ [e]) ! i)"
    by auto
  show "\<forall>i. 0 < i \<and> i < length (q @ [e]) \<and> (i - 1) div 2 = length q \<longrightarrow>
          cnt e \<le> cnt ((q @ [e]) ! i)"
    by auto
qed

lemma heap_head_least:
  assumes "is_heap q"
  shows "i < length q \<Longrightarrow> cnt (q ! 0) \<le> cnt (q ! i)"
proof (induction i rule: less_induct)
  case (less i)
  show ?case
  proof (cases "i = 0")
    case True
    then show ?thesis by simp
  next
    case False
    with less.prems assms have "cnt (q ! ((i - 1) div 2)) \<le> cnt (q ! i)"
      by (simp add: is_heap_def)
    moreover from False less.prems have "cnt (q ! 0) \<le> cnt (q ! ((i - 1) div 2))"
      by (intro less.IH) auto
    ultimately show ?thesis by simp
  qed
qed

lemma poll_Nil: "poll [] = (None, [])"
  by (simp add: poll_def)

lemma poll_fst: "q \<noteq> [] \<Longrightarrow> fst (poll q) = Some (q ! 0)"
  by (cases q) (simp_all add: poll_def Let_def)

lemma poll_length: "length (snd (poll q)) = length q - 1"
  by (cases q) (simp_all add: poll_def Let_def siftDown_length)

lemma poll_mset:
  assumes "q \<noteq> []"
  shows "mset (snd (poll q)) = mset q - {#q ! 0#}"
proof (cases "length q = 1")
  case True
  then obtain a where "q = [a]" by (cases q) auto
  then show ?thesis by (simp add: poll_def)
next
  case False
  with assms have n: "0 < length q - 1" by (cases q) auto
  let ?n = "length q - 1"
  have q: "q = take ?n q @ [q ! ?n]"
    using assms by (metis append_butlast_last_id butlast_conv_take last_conv_nth)
  have t0: "take ?n q ! 0 = q ! 0" using n by simp
  have "mset (snd (poll q)) = mset ((take ?n q)[0 := q ! ?n])"
    using assms n by (cases q) (simp_all add: poll_def Let_def siftDown_mset)
  also have "\<dots> = add_mset (q ! ?n) (mset (take ?n q) - {#q ! 0#})"
    using n by (simp add: mset_update t0)
  also have "\<dots> = add_mset (q ! ?n) (mset (take ?n q)) - {#q ! 0#}"
  proof -
    have "q ! 0 \<in># mset (take ?n q)"
      using n t0 by (metis length_take min.absorb2 diff_le_self nth_mem set_mset_mset)
    then show ?thesis by simp
  qed
  also have "add_mset (q ! ?n) (mset (take ?n q)) = mset q"
    by (subst (3) q) simp
  finally show ?thesis .
qed

lemma poll_heap:
  assumes "is_heap q"
  shows "is_heap (snd (poll q))"
proof (cases "length q \<le> 1")
  case True
  then show ?thesis
    by (cases q) (auto simp: poll_def is_heap_def)
next
  case False
  let ?n = "length q - 1"
  from False have n: "0 < ?n" by simp
  from False obtain a q' where q: "q = a # q'" by (cases q) auto
  have r: "snd (poll q) = siftDown 0 (q ! ?n) (take ?n q) ?n"
    using n q by (simp add: poll_def Let_def)
  have "is_heap (siftDown 0 (q ! ?n) (take ?n q) ?n)"
  proof (rule siftDown_heap)
    show "0 < length (take ?n q)" using n by simp
    show "?n = length (take ?n q)" by simp
    show "\<forall>i. 0 < i \<and> i < ?n \<and> i \<noteq> 0 \<and> (i - 1) div 2 \<noteq> 0 \<longrightarrow>
            cnt (take ?n q ! ((i - 1) div 2)) \<le> cnt (take ?n q ! i)"
      using assms by (auto simp: is_heap_def)
    show "0 < (0::nat) \<longrightarrow> cnt (take ?n q ! ((0 - 1) div 2)) \<le> cnt (q ! ?n)" by simp
    show "\<forall>i. 0 < i \<and> i < ?n \<and> (i - 1) div 2 = 0 \<and> 0 < (0::nat) \<longrightarrow>
            cnt (take ?n q ! ((0 - 1) div 2)) \<le> cnt (take ?n q ! i)" by simp
  qed
  with r show ?thesis by simp
qed

lemma best_inv_step:
  assumes "best_inv k seen h"
  shows "best_inv k (add_mset e seen) (heap_step k e h)"
proof -
  let ?h1 = "offer e h"
  from assms have hp: "is_heap h" and sub: "mset h \<subseteq># seen"
    and len: "length h = min k (size seen)"
    and dom0: "\<And>x y. x \<in># mset h \<Longrightarrow> y \<in># seen - mset h \<Longrightarrow> cnt y \<le> cnt x"
    by (auto simp: best_inv_def)
  from sub obtain r where s: "seen = mset h + r"
    by (auto simp: mset_subset_eq_exists_conv)
  have dom: "cnt y \<le> cnt x" if "x \<in># mset h" "y \<in># r" for x y
    using dom0 [of x y] that s by simp
  have h1: "is_heap ?h1" "mset ?h1 = add_mset e (mset h)" "length ?h1 = Suc (length h)"
    using hp by (simp_all add: offer_heap offer_mset offer_length)
  show ?thesis
  proof (cases "length ?h1 > k")
    case False
    then have res: "heap_step k e h = ?h1" by (simp add: heap_step_def)
    from False h1 len have "length h = size seen" by simp
    with s have "size r = 0" by simp
    then have "r = {#}" by simp
    with s have eq: "seen = mset h" by simp
    have "size seen = length h" unfolding eq by simp
    with eq False h1 show ?thesis
      unfolding res best_inv_def by simp
  next
    case True
    let ?m = "?h1 ! 0"
    let ?h2 = "snd (poll ?h1)"
    have ne: "?h1 \<noteq> []" using h1(3) by auto
    have res: "heap_step k e h = ?h2" using True by (simp add: heap_step_def)
    have h2: "is_heap ?h2" "mset ?h2 = mset ?h1 - {#?m#}" "length ?h2 = length h"
      using h1 ne by (simp_all add: poll_heap poll_mset poll_length)
    have m_in: "?m \<in># mset ?h1" using ne by simp
    have m_least: "cnt ?m \<le> cnt x" if "x \<in># mset ?h1" for x
    proof -
      from that obtain i where "i < length ?h1" "x = ?h1 ! i"
        by (auto simp: in_set_conv_nth)
      with heap_head_least [OF h1(1)] show ?thesis by simp
    qed
    have x1: "x \<in># mset ?h1" if "x \<in># mset ?h2" for x
    proof -
      from that have "x \<in># mset ?h1 - {#?m#}" unfolding h2(2) .
      then show ?thesis by (rule in_diffD)
    qed
    from True h1 len have lk: "length h = k" "k \<le> size seen" by auto
    have "mset ?h2 \<subseteq># add_mset e seen \<and>
          (\<forall>x y. x \<in># mset ?h2 \<and> y \<in># add_mset e seen - mset ?h2 \<longrightarrow> cnt y \<le> cnt x)"
    proof (cases "?m \<in># mset h")
      case True
      then obtain h' where h': "mset h = add_mset ?m h'" by (meson mset_add)
      have e2: "mset ?h2 = add_mset e h'"
        unfolding h2(2) h1(2) h' by simp
      have d: "add_mset e seen - mset ?h2 = add_mset ?m r"
        unfolding e2 s h' by simp
      have sb: "mset ?h2 \<subseteq># add_mset e seen"
        unfolding e2 s h' by simp
      have "cnt y \<le> cnt x" if x: "x \<in># mset ?h2" and y: "y \<in># add_mset ?m r" for x y
      proof (cases "y = ?m")
        case True
        with m_least [OF x1 [OF x]] show ?thesis by simp
      next
        case False
        with y have "y \<in># r" by simp
        with dom [OF True] have "cnt y \<le> cnt ?m" by simp
        with m_least [OF x1 [OF x]] show ?thesis by simp
      qed
      with sb d show ?thesis by simp
    next
      case False
      with m_in h1(2) have me: "?m = e" by auto
      have e2: "mset ?h2 = mset h"
        unfolding h2(2) h1(2) me by simp
      have d: "add_mset e seen - mset ?h2 = add_mset e r"
        unfolding e2 s by simp
      have sb: "mset ?h2 \<subseteq># add_mset e seen"
        unfolding e2 s by simp
      have "cnt y \<le> cnt x" if x: "x \<in># mset ?h2" and y: "y \<in># add_mset e r" for x y
      proof (cases "y = e")
        case True
        with m_least [OF x1 [OF x]] me show ?thesis by simp
      next
        case False
        with y have "y \<in># r" by simp
        with dom [of x y] x e2 show ?thesis by simp
      qed
      with sb d show ?thesis by simp
    qed
    with h2 lk show ?thesis
      unfolding res best_inv_def by simp
  qed
qed

lemma best_inv_fold:
  "best_inv k seen h \<Longrightarrow> best_inv k (seen + mset es) (fold (heap_step k) es h)"
proof (induction es arbitrary: seen h)
  case Nil
  then show ?case by simp
next
  case (Cons e es)
  from Cons.IH [OF best_inv_step [OF Cons.prems, of e]]
  show ?case by simp
qed

lemma best_inv_keep_best: "best_inv k (mset es) (keep_best k es)"
proof -
  have "best_inv k {#} []" by (simp add: best_inv_def is_heap_def)
  from best_inv_fold [OF this, of es] show ?thesis by (simp add: keep_best_def)
qed

lemma compare_int_le0: "(compare_int a b \<le> 0) = (sint a \<le> sint b)"
  by (auto simp: compare_int_def sint_eq_iff [symmetric])

lemma sort_insert_eq: "sort_insert x ys = insort_key (\<lambda>e. - cnt e) x ys"
  by (induction ys) (simp_all add: sort_cmp_def compare_int_le0)

lemma list_sort_eq: "list_sort xs = sort_key (\<lambda>e. - cnt e) xs"
proof -
  have "sort_insert = insort_key (\<lambda>e. - cnt e)"
    by (intro ext) (rule sort_insert_eq)
  then show ?thesis by (simp add: list_sort_def sort_key_def)
qed

lemma list_sort_mset: "mset (list_sort xs) = mset xs"
  by (simp add: list_sort_eq)

lemma count_sorted_iff: "count_sorted xs = sorted (map (\<lambda>e. - cnt e) xs)"
  by (simp add: count_sorted_def sorted_map)

lemma list_sort_sorted: "count_sorted (list_sort xs)"
  by (simp add: count_sorted_iff list_sort_eq)

lemma linked_put_fresh: "k \<notin> fst ` set ps \<Longrightarrow> linked_put k v ps = ps @ [(k, v)]"
  by (induction ps) auto

lemma fold_linked_put:
  "distinct (map fst (acc @ xs)) \<Longrightarrow>
     fold (\<lambda>e result. linked_put (fst e) (snd e) result) xs acc = acc @ xs"
proof (induction xs arbitrary: acc)
  case Nil
  then show ?case by simp
next
  case (Cons x xs)
  from Cons.prems have "fst x \<notin> fst ` set acc" by auto
  then have "linked_put (fst x) (snd x) acc = acc @ [x]"
    by (simp add: linked_put_fresh)
  moreover from Cons.prems have "distinct (map fst ((acc @ [x]) @ xs))" by simp
  ultimately show ?case using Cons.IH [of "acc @ [x]"] by simp
qed

lemma distinct_map_submset:
  assumes "mset xs \<subseteq># mset ys" "distinct (map f ys)"
  shows "distinct (map f xs)"
proof -
  have "mset (map f xs) \<subseteq># mset (map f ys)"
    using assms(1) by (simp add: image_mset_subseteq_mono)
  then have "count (mset (map f xs)) a \<le> count (mset (map f ys)) a" for a
    by (simp add: mset_subset_eq_count)
  moreover have "count (mset (map f ys)) a \<le> 1" for a
    using assms(2) by (simp add: distinct_count_atmost_1)
  ultimately have "count (mset (map f xs)) a \<le> 1" for a
    using le_trans by blast
  then show ?thesis
    unfolding distinct_count_atmost_1 using count_mset_0_iff
    by (metis One_nat_def count_greater_eq_one_iff le_antisym set_mset_mset)
qed

lemma selectTopK_sorted_heap:
  assumes "distinct (map fst es)"
  shows "selectTopK k es = list_sort (keep_best k es)"
proof -
  from best_inv_keep_best [of k es] have "mset (keep_best k es) \<subseteq># mset es"
    by (simp add: best_inv_def)
  then have "mset (list_sort (keep_best k es)) \<subseteq># mset es"
    by (simp add: list_sort_mset)
  from distinct_map_submset [OF this assms]
  have "distinct (map fst ([] @ list_sort (keep_best k es)))" by simp
  from fold_linked_put [OF this] show ?thesis
    by (simp add: selectTopK_def Let_def)
qed

lemma selectTopK_inv:
  assumes "distinct (map fst es)"
  shows "best_inv k (mset es) (keep_best k es) \<and>
         mset (selectTopK k es) = mset (keep_best k es)"
  using assms by (simp add: best_inv_keep_best selectTopK_sorted_heap list_sort_mset)

lemma selectTopK_submset:
  "distinct (map fst es) \<Longrightarrow> mset (selectTopK k es) \<subseteq># mset es"
  using selectTopK_inv [of es k] by (simp add: best_inv_def)

lemma selectTopK_length:
  assumes "distinct (map fst es)"
  shows "length (selectTopK k es) = min k (length es)"
proof -
  from selectTopK_inv [OF assms, of k]
  have "size (mset (selectTopK k es)) = min k (size (mset es))"
    by (simp add: best_inv_def)
  then show ?thesis by simp
qed

lemma selectTopK_dominates:
  assumes "distinct (map fst es)" "x \<in> set (selectTopK k es)" "y \<in> set es"
    "y \<notin> set (selectTopK k es)"
  shows "cnt y \<le> cnt x"
proof -
  from selectTopK_inv [OF assms(1), of k]
  have inv: "best_inv k (mset es) (keep_best k es)"
    and eq: "mset (selectTopK k es) = mset (keep_best k es)" by auto
  have c0: "count (mset (selectTopK k es)) y = 0"
    by (rule count_eq_zero_iff [THEN iffD2]) (use assms(4) in simp)
  have c1: "0 < count (mset es) y"
    by (rule count_greater_zero_iff [THEN iffD2]) (use assms(3) in simp)
  have "y \<in># mset es - mset (selectTopK k es)"
    unfolding in_diff_count c0 by (rule c1)
  then have y: "y \<in># mset es - mset (keep_best k es)" unfolding eq .
  from assms(2) mset_eq_setD [OF eq] have x: "x \<in># mset (keep_best k es)" by simp
  from inv x y show ?thesis unfolding best_inv_def by blast
qed

lemma selectTopK_count_sorted:
  "distinct (map fst es) \<Longrightarrow> count_sorted (selectTopK k es)"
  by (simp add: selectTopK_sorted_heap list_sort_sorted)

lemma selectTopK_distinct:
  "distinct (map fst es) \<Longrightarrow> distinct (map fst (selectTopK k es))"
  by (rule distinct_map_submset [OF selectTopK_submset])

text \<open>The counts of the output are the first counts of any list of all entries sorted by count.\<close>

lemma sorted_prefix_counts:
  assumes "mset res \<subseteq># mset es" "length res = min k (length es)"
    and "sorted (map (\<lambda>e. - cnt e) res)"
    and "\<And>x y. x \<in># mset res \<Longrightarrow> y \<in># mset es - mset res \<Longrightarrow> cnt y \<le> cnt x"
    and "mset S = mset es" "sorted (map (\<lambda>e. - cnt e) S)"
  shows "map (\<lambda>e. - cnt e) res = map (\<lambda>e. - cnt e) (take k S)"
proof -
  let ?f = "\<lambda>e::entry. - cnt e"
  obtain rest where rest: "mset rest = mset es - mset res"
    using ex_mset by blast
  let ?L = "res @ sort_key ?f rest"
  have mL: "mset ?L = mset es" using rest assms(1) by simp
  have "?f x \<le> ?f y" if "x \<in> set res" "y \<in> set rest" for x y
  proof -
    from that(2) have "y \<in># mset rest" by simp
    then have "y \<in># mset es - mset res" unfolding rest .
    with assms(4) [of x y] that(1) show ?thesis by simp
  qed
  then have sL: "sorted (map ?f ?L)"
    using assms(3) by (auto simp: sorted_append)
  have "mset (map ?f ?L) = mset (map ?f es)" by (simp only: mset_map mL)
  then have "sort (map ?f es) = map ?f ?L"
    using sL by (rule properties_for_sort)
  moreover have "mset (map ?f S) = mset (map ?f es)" by (simp only: mset_map assms(5))
  then have "sort (map ?f es) = map ?f S"
    using assms(6) by (rule properties_for_sort)
  ultimately have "map ?f ?L = map ?f S" by simp
  then have "take k (map ?f ?L) = take k (map ?f S)" by (rule arg_cong)
  then have "map ?f (take k ?L) = map ?f (take k S)" unfolding take_map .
  moreover have "take k ?L = res"
  proof (cases "k \<le> length es")
    case True
    with assms(2) show ?thesis by simp
  next
    case False
    with assms(2) have "length res = length es" by simp
    then have "size (mset res) = size (mset es)" by simp
    with assms(1) have "mset res = mset es"
      by (metis mset_subset_size nat_neq_iff subset_mset.le_imp_less_or_eq)
    with rest have "rest = []" by simp
    with False assms(2) show ?thesis by simp
  qed
  ultimately show ?thesis by (simp only:)
qed

lemma reference_sorted_by_count:
  "sorted (map (\<lambda>e. - cnt e) (sort_key (\<lambda>e. (- cnt e, fst e)) es))"
proof -
  have "sorted (map (\<lambda>e. (- cnt e, fst e)) (sort_key (\<lambda>e. (- cnt e, fst e)) es))"
    by (rule sorted_sort_key)
  then have "sorted (map fst (map (\<lambda>e. (- cnt e, fst e)) (sort_key (\<lambda>e. (- cnt e, fst e)) es)))"
    by (rule sorted_map [THEN iffD2, OF sorted_wrt_mono_rel [rotated]])
       (auto simp: sorted_map less_eq_prod_def)
  then show ?thesis by (simp add: comp_def)
qed

lemmas topk_eval = selectTopK_def keep_best_def heap_step_def offer_def poll_def siftUp.simps
  siftDown.simps heap_cmp_def compare_int_def list_sort_def sort_cmp_def Let_def

lemma word_sum_sint: "(sum_list ws :: 32 word) = of_int (sum_list (map sint ws))"
  by (induction ws) simp_all

lemma sint_exact:
  "- (2 ^ 31) \<le> x \<Longrightarrow> x < 2 ^ 31 \<Longrightarrow> sint (of_int x :: 32 word) = x"
  by (simp add: sint_sbintrunc' signed_take_bit_int_eq_self)

lemma fold_increment:
  "fold (\<lambda>e counts. increment counts (fst e) (snd e)) elements m k =
     (if k \<in> fst ` set elements
      then Some ((case m k of None \<Rightarrow> 0 | Some c \<Rightarrow> c) +
                 sum_list (map snd (filter (\<lambda>e. fst e = k) elements)))
      else m k)"
proof (induction elements arbitrary: m)
  case Nil
  then show ?case by simp
next
  case (Cons e elements)
  let ?m = "increment m (fst e) (snd e)"
  have "fold (\<lambda>e counts. increment counts (fst e) (snd e)) (e # elements) m k =
        fold (\<lambda>e counts. increment counts (fst e) (snd e)) elements ?m k"
    by simp
  also have "\<dots> =
     (if k \<in> fst ` set elements
      then Some ((case ?m k of None \<Rightarrow> 0 | Some c \<Rightarrow> c) +
                 sum_list (map snd (filter (\<lambda>e. fst e = k) elements)))
      else ?m k)"
    by (rule Cons.IH)
  also have "\<dots> =
     (if k \<in> fst ` set (e # elements)
      then Some ((case m k of None \<Rightarrow> 0 | Some c \<Rightarrow> c) +
                 sum_list (map snd (filter (\<lambda>e. fst e = k) (e # elements))))
      else m k)"
  proof -
    have "k \<notin> fst ` set elements \<Longrightarrow> filter (\<lambda>e. fst e = k) elements = []"
      by (auto simp: filter_empty_conv)
    then show ?thesis
      by (auto simp: increment_def add.assoc split: option.splits)
  qed
  finally show ?case .
qed

lemma count_views_eq:
  "count_views elements k =
     (if k \<in> fst ` set elements
      then Some (sum_list (map snd (filter (\<lambda>e. fst e = k) elements)))
      else None)"
  by (simp add: count_views_def fold_increment)

text \<open>
  C3, as the code has it. \<open>increment\<close> adds the weight to the running count of its key,
  starting from 0 when the key is absent, and leaves every other key alone. After any
  sequence of elements the count of a key is the sum of the weights of the elements with
  that key, reduced to a 32-bit \<open>Integer\<close>; it is the exact sum whenever that sum lies
  in the range of \<open>int\<close>.
\<close>

theorem count_is_wrapped_sum:
  "increment counts k w k = Some ((case counts k of None \<Rightarrow> 0 | Some c \<Rightarrow> c) + w) \<and>
   (\<forall>k'. k' \<noteq> k \<longrightarrow> increment counts k w k' = counts k') \<and>
   count_views elements k =
     (if k \<in> fst ` set elements
      then Some (word_of_int (weight_sum elements k))
      else None) \<and>
   (k \<in> fst ` set elements \<and> - (2 ^ 31) \<le> weight_sum elements k \<and> weight_sum elements k < 2 ^ 31
      \<longrightarrow> (\<exists>c. count_views elements k = Some c \<and> sint c = weight_sum elements k))"
proof -
  have w: "sum_list (map snd (filter (\<lambda>e. fst e = k) elements)) =
           (word_of_int (weight_sum elements k) :: 32 word)"
    by (simp add: word_sum_sint weight_sum_def comp_def)
  show ?thesis
    by (simp add: increment_def count_views_eq w sint_exact)
qed

text \<open>The theorem at three elements: the key \<open>a\<close> with weights 2 and 3 is counted 5.\<close>

theorem count_is_wrapped_sum_witness:
  "''a'' \<in> fst ` set [(''a'', 2), (''b'', 1), (''a'', 3 :: 32 word)] \<and>
   weight_sum [(''a'', 2), (''b'', 1), (''a'', 3)] ''a'' = 5 \<and>
   count_views [(''a'', 2), (''b'', 1), (''a'', 3)] ''a'' = Some 5 \<and>
   increment [''a'' \<mapsto> 2] ''b'' 1 ''b'' = Some 1 \<and>
   increment [''a'' \<mapsto> 2] ''b'' 1 ''a'' = Some 2"
  using count_is_wrapped_sum [of "[''a'' \<mapsto> 2]" "''b''" 1 "[(''a'', 2), (''b'', 1), (''a'', 3)]"]
    count_is_wrapped_sum [of "[''a'' \<mapsto> 2]" "''a''" 1 "[(''a'', 2), (''b'', 1), (''a'', 3)]"]
  by (simp add: weight_sum_def increment_def)

text \<open>
  C3 as stated fails when the sum leaves the range of \<open>int\<close>: the weights
  \<open>2147483647\<close> and \<open>1\<close> of one key sum to \<open>2147483648\<close>, and the stored count is
  \<open>-2147483648\<close>.
\<close>

theorem count_overflow_counterexample:
  "count_views [(''a'', 2147483647), (''a'', 1)] ''a'' = Some (- 2147483648) \<and>
   sint (- 2147483648 :: 32 word) = - 2147483648 \<and>
   weight_sum [(''a'', 2147483647), (''a'', 1)] ''a'' = 2147483648"
  by (simp add: count_views_def increment_def weight_sum_def)

lemma counts_of_keys:
  "map (\<lambda>e. - cnt e) xs = map (\<lambda>e. - cnt e) ys \<Longrightarrow> map snd xs = map snd ys"
proof -
  assume a: "map (\<lambda>e. - cnt e) xs = map (\<lambda>e. - cnt e) ys"
  have i: "inj (\<lambda>w::32 word. - sint w)"
    by (rule injI) (simp add: sint_eq_iff)
  from a have "map (\<lambda>w. - sint w) (map snd xs) = map (\<lambda>w. - sint w) (map snd ys)"
    by (simp add: comp_def)
  then show ?thesis using i by (rule map_injective)
qed

lemma selectTopK_counts_reference:
  assumes "distinct (map fst es)"
  shows "map snd (selectTopK k es) = map snd (reference_topK k es)"
proof -
  from selectTopK_inv [OF assms, of k]
  have inv: "best_inv k (mset es) (keep_best k es)"
    and eq: "mset (selectTopK k es) = mset (keep_best k es)" by auto
  have "map (\<lambda>e. - cnt e) (selectTopK k es) =
        map (\<lambda>e. - cnt e) (take k (sort_key (\<lambda>e. (- cnt e, fst e)) es))"
  proof (rule sorted_prefix_counts)
    show "mset (selectTopK k es) \<subseteq># mset es" by (rule selectTopK_submset [OF assms])
    show "length (selectTopK k es) = min k (length es)" by (rule selectTopK_length [OF assms])
    show "sorted (map (\<lambda>e. - cnt e) (selectTopK k es))"
      using selectTopK_count_sorted [OF assms, of k] by (simp add: count_sorted_iff)
    show "cnt y \<le> cnt x"
      if "x \<in># mset (selectTopK k es)" "y \<in># mset es - mset (selectTopK k es)" for x y
      using that inv unfolding eq best_inv_def by blast
    show "mset (sort_key (\<lambda>e. (- cnt e, fst e)) es) = mset es" by simp
    show "sorted (map (\<lambda>e. - cnt e) (sort_key (\<lambda>e. (- cnt e, fst e)) es))"
      by (rule reference_sorted_by_count)
  qed
  then show ?thesis
    unfolding reference_topK_def by (rule counts_of_keys)
qed

lemma reference_topK_submset: "mset (reference_topK k es) \<subseteq># mset es"
proof -
  let ?S = "sort_key (\<lambda>e::entry. (- cnt e, fst e)) es"
  have "mset (take k ?S) + mset (drop k ?S) = mset (take k ?S @ drop k ?S)"
    by (rule mset_append [symmetric])
  also have "\<dots> = mset es" by (simp only: append_take_drop_id mset_sort)
  finally have "mset es = mset (take k ?S) + mset (drop k ?S)" by (rule sym)
  then show ?thesis
    unfolding reference_topK_def by (simp only: mset_subset_eq_add_left)
qed

lemma selectTopK_eq_reference:
  assumes "distinct (map fst es)" "distinct (map snd es)"
  shows "selectTopK k es = reference_topK k es"
proof (rule map_inj_on [OF selectTopK_counts_reference [OF assms(1)]])
  have "set (selectTopK k es) \<subseteq> set es"
    using set_mset_mono [OF selectTopK_submset [OF assms(1), of k]] by simp
  moreover have "set (reference_topK k es) \<subseteq> set es"
    using set_mset_mono [OF reference_topK_submset [of k es]] by simp
  moreover have "inj_on snd (set es)" using assms(2) by (simp add: distinct_map)
  ultimately show "inj_on snd (set (selectTopK k es) \<union> set (reference_topK k es))"
    by (auto intro: inj_on_subset)
qed



text \<open>
  The buckets, in a table of 16, of the keys of the examples: \<open>p\<close> comes before
  \<open>a\<close> to \<open>f\<close>, and \<open>q\<close> shares the bucket of \<open>a\<close>.
\<close>

lemma example_buckets:
  "map (bucket 16) [''p'', ''a'', ''b'', ''c'', ''d'', ''e'', ''f'', ''q''] =
     [0, 1, 2, 3, 4, 5, 6, 1]"
  by (simp add: bucket_def hashCode_def)

text \<open>
  C1, as the code has it. When the map has at least \<open>k\<close> keys the selection returns
  exactly \<open>k\<close> of its entries, no returned count is below a count that was not
  returned, and the output is in descending order of count. Nothing orders entries of
  equal count by key.
\<close>

theorem topK_at_least_K:
  assumes "distinct (map fst es)" and "k \<le> length es"
  shows "length (selectTopK k es) = k \<and>
         set (selectTopK k es) \<subseteq> set es \<and>
         (\<forall>x \<in> set (selectTopK k es). \<forall>y \<in> set es - set (selectTopK k es).
             sint (snd y) \<le> sint (snd x)) \<and>
         count_sorted (selectTopK k es)"
proof (intro conjI ballI)
  show "length (selectTopK k es) = k"
    using selectTopK_length [OF assms(1), of k] assms(2) by simp
  show "set (selectTopK k es) \<subseteq> set es"
    using set_mset_mono [OF selectTopK_submset [OF assms(1), of k]] by simp
  show "count_sorted (selectTopK k es)"
    by (rule selectTopK_count_sorted [OF assms(1)])
next
  fix x y
  assume "x \<in> set (selectTopK k es)" "y \<in> set es - set (selectTopK k es)"
  then show "sint (snd y) \<le> sint (snd x)"
    using selectTopK_dominates [OF assms(1), of x k y] by simp
qed

text \<open>The theorem at seven entries with the program's \<open>K = 5\<close>.\<close>

theorem topK_at_least_K_witness:
  "distinct (map fst [(''a'', 3), (''b'', 7), (''c'', 1), (''d'', 9), (''e'', 2), (''f'', 8),
                      (''g'', 4 :: 32 word)]) \<and>
   K \<le> length [(''a'', 3), (''b'', 7), (''c'', 1), (''d'', 9), (''e'', 2), (''f'', 8),
                (''g'', 4 :: 32 word)] \<and>
   selectTopK K [(''a'', 3), (''b'', 7), (''c'', 1), (''d'', 9), (''e'', 2), (''f'', 8), (''g'', 4)]
     = [(''d'', 9), (''f'', 8), (''b'', 7), (''g'', 4), (''a'', 3)] \<and>
   length (selectTopK K [(''a'', 3), (''b'', 7), (''c'', 1), (''d'', 9), (''e'', 2), (''f'', 8),
                         (''g'', 4)]) = K \<and>
   count_sorted (selectTopK K [(''a'', 3), (''b'', 7), (''c'', 1), (''d'', 9), (''e'', 2),
                               (''f'', 8), (''g'', 4)])"
proof -
  let ?es = "[(''a'', 3), (''b'', 7), (''c'', 1), (''d'', 9), (''e'', 2), (''f'', 8),
              (''g'', 4 :: 32 word)]"
  have d: "distinct (map fst ?es)" by simp
  have l: "K \<le> length ?es" by (simp add: K_def)
  have v: "selectTopK K ?es = [(''d'', 9), (''f'', 8), (''b'', 7), (''g'', 4), (''a'', 3)]"
    by (simp add: K_def topk_eval)
  from topK_at_least_K [OF d l] d l v show ?thesis by simp
qed

text \<open>
  C1 as stated fails on ties. The keys \<open>p, a, b, c, d\<close> have the hash codes
  112, 97, 98, 99, 100, so a \<open>HashMap\<close> with its 16 initial buckets iterates them in the
  order \<open>p, a, b, c, d\<close> (buckets 0 to 4). With all counts equal no \<open>siftUp\<close> moves
  anything and the stable sort keeps the order: \<open>p\<close> is emitted before \<open>a\<close>.
\<close>

theorem topK_tie_order_counterexample:
  "distinct (map fst [(''p'', 1), (''a'', 1), (''b'', 1), (''c'', 1), (''d'', 1 :: 32 word)]) \<and>
   K \<le> length [(''p'', 1), (''a'', 1), (''b'', 1), (''c'', 1), (''d'', 1 :: 32 word)] \<and>
   selectTopK K [(''p'', 1), (''a'', 1), (''b'', 1), (''c'', 1), (''d'', 1)]
     = [(''p'', 1), (''a'', 1), (''b'', 1), (''c'', 1), (''d'', 1)] \<and>
   \<not> spec_sorted (selectTopK K [(''p'', 1), (''a'', 1), (''b'', 1), (''c'', 1), (''d'', 1)])"
proof -
  have v: "selectTopK K [(''p'', 1), (''a'', 1), (''b'', 1), (''c'', 1), (''d'', 1)]
     = [(''p'', 1), (''a'', 1), (''b'', 1), (''c'', 1), (''d'', 1)]"
    by (simp add: K_def topk_eval)
  show ?thesis
    unfolding v by (simp add: K_def spec_sorted_def spec_before_def)
qed

text \<open>
  C5, as the code has it. When the map has fewer than \<open>k\<close> keys the selection returns
  all its entries in descending order of count, and on the empty map it returns the empty
  sequence. Nothing orders entries of equal count by key.
\<close>

theorem topK_fewer_than_K:
  assumes "distinct (map fst es)" and "length es < k"
  shows "mset (selectTopK k es) = mset es \<and>
         length (selectTopK k es) = length es \<and>
         count_sorted (selectTopK k es) \<and>
         selectTopK k [] = []"
proof -
  have len: "length (selectTopK k es) = length es"
    using selectTopK_length [OF assms(1), of k] assms(2) by simp
  from selectTopK_submset [OF assms(1), of k] obtain r
    where r: "mset es = mset (selectTopK k es) + r"
    by (auto simp: mset_subset_eq_exists_conv)
  from len have "size (mset (selectTopK k es)) = size (mset es)" by simp
  with r have "r = {#}" by simp
  with r have "mset (selectTopK k es) = mset es" by simp
  moreover have "selectTopK k [] = []"
    by (simp add: selectTopK_def keep_best_def list_sort_def)
  ultimately show ?thesis
    using len selectTopK_count_sorted [OF assms(1), of k] by simp
qed

text \<open>The theorem at three entries with the program's \<open>K = 5\<close>.\<close>

theorem topK_fewer_than_K_witness:
  "distinct (map fst [(''a'', 1), (''b'', 4), (''c'', 2 :: 32 word)]) \<and>
   length [(''a'', 1), (''b'', 4), (''c'', 2 :: 32 word)] < K \<and>
   selectTopK K [(''a'', 1), (''b'', 4), (''c'', 2)] = [(''b'', 4), (''c'', 2), (''a'', 1)] \<and>
   mset (selectTopK K [(''a'', 1), (''b'', 4), (''c'', 2)]) = mset [(''a'', 1), (''b'', 4), (''c'', 2)] \<and>
   count_sorted (selectTopK K [(''a'', 1), (''b'', 4), (''c'', 2)]) \<and>
   selectTopK K [] = []"
proof -
  let ?es = "[(''a'', 1), (''b'', 4), (''c'', 2 :: 32 word)]"
  have d: "distinct (map fst ?es)" by simp
  have l: "length ?es < K" by (simp add: K_def)
  have v: "selectTopK K ?es = [(''b'', 4), (''c'', 2), (''a'', 1)]"
    by (simp add: K_def topk_eval)
  from topK_fewer_than_K [OF d l] d l v show ?thesis by simp
qed

text \<open>
  C5 as stated fails on ties: the two keys \<open>p\<close> (bucket 0) and \<open>a\<close> (bucket 1) with
  equal counts are emitted in the order \<open>p, a\<close>.
\<close>

theorem topK_fewer_tie_order_counterexample:
  "distinct (map fst [(''p'', 1), (''a'', 1 :: 32 word)]) \<and>
   length [(''p'', 1), (''a'', 1 :: 32 word)] < K \<and>
   selectTopK K [(''p'', 1), (''a'', 1)] = [(''p'', 1), (''a'', 1)] \<and>
   \<not> spec_sorted (selectTopK K [(''p'', 1), (''a'', 1)])"
proof -
  have v: "selectTopK K [(''p'', 1), (''a'', 1)] = [(''p'', 1), (''a'', 1)]"
    by (simp add: K_def topk_eval)
  show ?thesis
    unfolding v by (simp add: K_def spec_sorted_def spec_before_def)
qed

text \<open>
  C4, as the code has it. The heap selection and the reference selection (sort by count
  descending, then key ascending, take the first \<open>k\<close>) return the same sequence of
  counts; they return the same sequence of entries when no two keys have the same count.
\<close>

theorem heap_selection_reference_counts:
  assumes "distinct (map fst es)"
  shows "map snd (selectTopK k es) = map snd (reference_topK k es) \<and>
         (distinct (map snd es) \<longrightarrow> selectTopK k es = reference_topK k es)"
  using assms by (simp add: selectTopK_counts_reference selectTopK_eq_reference)

text \<open>The theorem at seven entries of pairwise different counts.\<close>

theorem heap_selection_reference_counts_witness:
  "distinct (map fst [(''a'', 3), (''b'', 7), (''c'', 1), (''d'', 9), (''e'', 2), (''f'', 8),
                      (''g'', 4 :: 32 word)]) \<and>
   distinct (map snd [(''a'', 3), (''b'', 7), (''c'', 1), (''d'', 9), (''e'', 2), (''f'', 8),
                      (''g'', 4 :: 32 word)]) \<and>
   reference_topK K [(''a'', 3), (''b'', 7), (''c'', 1), (''d'', 9), (''e'', 2), (''f'', 8), (''g'', 4)]
     = [(''d'', 9), (''f'', 8), (''b'', 7), (''g'', 4), (''a'', 3)] \<and>
   selectTopK K [(''a'', 3), (''b'', 7), (''c'', 1), (''d'', 9), (''e'', 2), (''f'', 8), (''g'', 4)]
     = reference_topK K [(''a'', 3), (''b'', 7), (''c'', 1), (''d'', 9), (''e'', 2), (''f'', 8),
                         (''g'', 4)]"
proof -
  let ?es = "[(''a'', 3), (''b'', 7), (''c'', 1), (''d'', 9), (''e'', 2), (''f'', 8),
              (''g'', 4 :: 32 word)]"
  have d: "distinct (map fst ?es)" by simp
  have c: "distinct (map snd ?es)" by simp
  have v: "reference_topK K ?es = [(''d'', 9), (''f'', 8), (''b'', 7), (''g'', 4), (''a'', 3)]"
    by code_simp
  from heap_selection_reference_counts [OF d, of K] c
  have "selectTopK K ?es = reference_topK K ?es" by blast
  with d c v show ?thesis by simp
qed

text \<open>
  C4 as stated fails on ties. Six keys \<open>a\<close> to \<open>f\<close> (buckets 1 to 6) of count 1:
  the sixth \<open>offer\<close> fills the heap to six entries, \<open>poll\<close> removes the head
  \<open>a\<close> and moves the last entry \<open>f\<close> to the root. The program emits
  \<open>f, b, c, d, e\<close>; the reference selection is \<open>a, b, c, d, e\<close>.
\<close>

theorem heap_selection_reference_counterexample:
  "distinct (map fst [(''a'', 1), (''b'', 1), (''c'', 1), (''d'', 1), (''e'', 1), (''f'', 1 :: 32 word)]) \<and>
   selectTopK K [(''a'', 1), (''b'', 1), (''c'', 1), (''d'', 1), (''e'', 1), (''f'', 1)]
     = [(''f'', 1), (''b'', 1), (''c'', 1), (''d'', 1), (''e'', 1)] \<and>
   reference_topK K [(''a'', 1), (''b'', 1), (''c'', 1), (''d'', 1), (''e'', 1), (''f'', 1)]
     = [(''a'', 1), (''b'', 1), (''c'', 1), (''d'', 1), (''e'', 1)] \<and>
   selectTopK K [(''a'', 1), (''b'', 1), (''c'', 1), (''d'', 1), (''e'', 1), (''f'', 1)]
     \<noteq> reference_topK K [(''a'', 1), (''b'', 1), (''c'', 1), (''d'', 1), (''e'', 1), (''f'', 1)]"
proof -
  have v: "selectTopK K [(''a'', 1), (''b'', 1), (''c'', 1), (''d'', 1), (''e'', 1), (''f'', 1)]
     = [(''f'', 1), (''b'', 1), (''c'', 1), (''d'', 1), (''e'', 1)]"
    by (simp add: K_def topk_eval)
  have r: "reference_topK K [(''a'', 1), (''b'', 1), (''c'', 1), (''d'', 1), (''e'', 1), (''f'', 1)]
     = [(''a'', 1), (''b'', 1), (''c'', 1), (''d'', 1), (''e'', 1)]"
    by code_simp
  show ?thesis unfolding v r by simp
qed




section \<open>Proofs: the window machinery of the specification\<close>

lemma mult_le_iff_div: "0 < (d::int) \<Longrightarrow> (q * d \<le> t) = (q \<le> t div d)"
proof
  assume d: "0 < d" and "q * d \<le> t"
  then have "(q * d) div d \<le> t div d" by (intro zdiv_mono1) auto
  with d show "q \<le> t div d" by simp
next
  assume d: "0 < d" and q: "q \<le> t div d"
  then have "q * d \<le> (t div d) * d" by (simp add: mult_right_mono)
  also have "\<dots> = t - t mod d" by (simp add: algebra_simps minus_mod_eq_mult_div)
  also have "\<dots> \<le> t" using d by simp
  finally show "q * d \<le> t" .
qed

lemma less_mult_iff_div: "0 < (d::int) \<Longrightarrow> (t < q * d) = (t div d < q)"
  using mult_le_iff_div [of d q t] by linarith

lemma assign_set:
  "set (assign t ws) =
     {start. start \<le> t \<and> t < start + windowSize ws \<and> start mod windowSlide ws = 0}"
  by (auto simp: assign_def)

lemma assign_distinct: "distinct (assign t ws)"
  by (simp add: assign_def)

lemma assign_image:
  assumes "well_formed ws"
  shows "set (assign t ws) =
     (\<lambda>i. (t div windowSlide ws - int i) * windowSlide ws) `
       {0 ..< nat (windowSize ws div windowSlide ws)}"
proof -
  let ?d = "windowSlide ws" and ?m = "windowSize ws div windowSlide ws"
  from assms have d: "0 < ?d" and sz: "windowSize ws = ?m * ?d"
    by (auto simp: well_formed_def)
  have mem: "s \<in> set (assign t ws) \<longleftrightarrow>
      s mod ?d = 0 \<and> s div ?d \<le> t div ?d \<and> t div ?d < s div ?d + ?m" for s
  proof (cases "s mod ?d = 0")
    case False
    then show ?thesis by (simp add: assign_set)
  next
    case True
    then have s: "s = (s div ?d) * ?d" by auto
    have "s \<le> t \<longleftrightarrow> s div ?d \<le> t div ?d"
      using mult_le_iff_div [OF d, of "s div ?d" t] s by simp
    moreover have "t < s + windowSize ws \<longleftrightarrow> t div ?d < s div ?d + ?m"
    proof -
      have "s + windowSize ws = (s div ?d + ?m) * ?d"
        using s sz by (metis distrib_right)
      with less_mult_iff_div [OF d, of t "s div ?d + ?m"] show ?thesis by simp
    qed
    ultimately show ?thesis using True by (simp add: assign_set)
  qed
  show ?thesis
  proof (intro set_eqI iffI)
    fix s assume "s \<in> set (assign t ws)"
    with mem have s: "s mod ?d = 0" "s div ?d \<le> t div ?d" "t div ?d < s div ?d + ?m"
      by auto
    let ?i = "nat (t div ?d - s div ?d)"
    from s have "?i \<in> {0 ..< nat ?m}" by auto
    moreover from s have "(t div ?d - int ?i) * ?d = s" by auto
    ultimately show "s \<in> (\<lambda>i. (t div ?d - int i) * ?d) ` {0 ..< nat ?m}"
      by (metis (mono_tags, lifting) image_iff)
  next
    fix s assume "s \<in> (\<lambda>i. (t div ?d - int i) * ?d) ` {0 ..< nat ?m}"
    then obtain i where i: "i < nat ?m" and s: "s = (t div ?d - int i) * ?d" by auto
    from s d have "s mod ?d = 0" "s div ?d = t div ?d - int i" by simp_all
    with i show "s \<in> set (assign t ws)" unfolding mem by auto
  qed
qed

lemma assign_length:
  assumes "well_formed ws"
  shows "int (length (assign t ws)) = windowSize ws div windowSlide ws"
proof -
  let ?d = "windowSlide ws" and ?m = "windowSize ws div windowSlide ws"
  from assms have d: "0 < ?d" and sz: "0 < windowSize ws"
    by (auto simp: well_formed_def)
  have inj: "inj_on (\<lambda>i. (t div ?d - int i) * ?d) {0 ..< nat ?m}"
    using d by (auto simp: inj_on_def)
  have "length (assign t ws) = card (set (assign t ws))"
    by (simp add: distinct_card assign_distinct)
  also have "\<dots> = card {0 ..< nat ?m}"
    unfolding assign_image [OF assms] by (rule card_image [OF inj])
  finally have "length (assign t ws) = nat ?m" by simp
  moreover have "0 \<le> ?m" using d sz by (simp add: pos_imp_zdiv_nonneg_iff)
  ultimately show ?thesis by simp
qed

lemma route_emitted: "emitted (route ev w agg) = emitted agg"
  by (simp add: route_def split: option.splits wstatus.splits)

lemma route_status:
  "status (route ev w agg) w' =
     (if w' = w \<and> status agg w = None then Some Open else status agg w')"
  by (simp add: route_def split: option.splits wstatus.splits)

lemma route_is_closed: "is_closed (route ev w agg) w' = is_closed agg w'"
  by (auto simp: is_closed_def route_status)

lemma route_late: "late (route ev w agg) = late agg + (if is_closed agg w then 1 else 0)"
  by (simp add: route_def is_closed_def split: option.splits wstatus.splits)

lemma route_store:
  "store (route ev w agg) = 
     (if is_closed agg w then store agg else increment (store agg) (w, key ev) (weight ev))"
  by (simp add: route_def is_closed_def split: option.splits wstatus.splits)

lemma fold_route_emitted: "emitted (fold (route ev) ws agg) = emitted agg"
  by (induction ws arbitrary: agg) (simp_all add: route_emitted)

lemma fold_route_is_closed: "is_closed (fold (route ev) ws agg) w' = is_closed agg w'"
  by (induction ws arbitrary: agg) (simp_all add: route_is_closed)

lemma fold_route_status_closed:
  "status agg w' = Some Closed \<Longrightarrow> status (fold (route ev) ws agg) w' = Some Closed"
proof (induction ws arbitrary: agg)
  case Nil
  then show ?case by simp
next
  case (Cons a ws)
  from Cons.prems have "status (route ev a agg) w' = Some Closed"
    by (auto simp: route_status)
  from Cons.IH [OF this] show ?case by simp
qed

lemma fold_route_late:
  "late (fold (route ev) ws agg) = late agg + length (filter (is_closed agg) ws)"
proof (induction ws arbitrary: agg)
  case Nil
  then show ?case by simp
next
  case (Cons w ws)
  have "is_closed (route ev w agg) = is_closed agg"
    by (intro ext) (rule route_is_closed)
  then show ?case by (simp add: Cons.IH route_late)
qed

lemma fold_route_store:
  "distinct ws \<Longrightarrow>
   store (fold (route ev) ws agg) (w, k) =
     (if w \<in> set ws \<and> k = key ev \<and> \<not> is_closed agg w
      then Some ((case store agg (w, k) of None \<Rightarrow> 0 | Some c \<Rightarrow> c) + weight ev)
      else store agg (w, k))"
proof (induction ws arbitrary: agg)
  case Nil
  then show ?case by simp
next
  case (Cons a ws)
  have c: "is_closed (route ev a agg) w = is_closed agg w" by (rule route_is_closed)
  from Cons.prems have d: "distinct ws" "a \<notin> set ws" by auto
  have "store (fold (route ev) (a # ws) agg) (w, k) =
        store (fold (route ev) ws (route ev a agg)) (w, k)" by simp
  also have "\<dots> =
     (if w \<in> set ws \<and> k = key ev \<and> \<not> is_closed agg w
      then Some ((case store (route ev a agg) (w, k) of None \<Rightarrow> 0 | Some c \<Rightarrow> c) + weight ev)
      else store (route ev a agg) (w, k))"
    by (simp only: Cons.IH [OF d(1)] c)
  also have "\<dots> =
     (if w \<in> set (a # ws) \<and> k = key ev \<and> \<not> is_closed agg w
      then Some ((case store agg (w, k) of None \<Rightarrow> 0 | Some c \<Rightarrow> c) + weight ev)
      else store agg (w, k))"
    using d(2) by (auto simp: route_store increment_def)
  finally show ?case .
qed

lemma untouched_refl: "status agg w = Some Closed \<Longrightarrow> untouched w agg agg"
  by (simp add: untouched_def)

lemma untouched_trans:
  assumes "untouched w a b" "untouched w b c"
  shows "untouched w a c"
proof -
  from assms(1) obtain n1 where n1: "emitted b = emitted a @ n1" "\<forall>s \<in> set n1. windowStart s \<noteq> w"
    by (auto simp: untouched_def)
  from assms(2) obtain n2 where n2: "emitted c = emitted b @ n2" "\<forall>s \<in> set n2. windowStart s \<noteq> w"
    by (auto simp: untouched_def)
  from n1 n2 have "emitted c = emitted a @ (n1 @ n2) \<and> (\<forall>s \<in> set (n1 @ n2). windowStart s \<noteq> w)"
    by auto
  then have "\<exists>new. emitted c = emitted a @ new \<and> (\<forall>s \<in> set new. windowStart s \<noteq> w)"
    by blast
  with assms show ?thesis by (simp add: untouched_def)
qed

lemma untouched_closed: "untouched w a b \<Longrightarrow> status b w = Some Closed"
  by (simp add: untouched_def)

lemma close_window_untouched:
  assumes "status a w = Some Closed" "w' \<noteq> w"
  shows "untouched w a (close_window cfg entrySet w' a)"
  using assms by (simp add: untouched_def close_window_def Let_def evict_def)

lemma close_all_untouched:
  "status a w = Some Closed \<Longrightarrow>
   untouched w a
     (fold (\<lambda>w a. if status a w = Some Closing then close_window cfg entrySet w a else a) ws a)"
proof (induction ws arbitrary: a)
  case Nil
  then show ?case by (simp add: untouched_refl)
next
  case (Cons w' ws)
  let ?a = "if status a w' = Some Closing then close_window cfg entrySet w' a else a"
  have u: "untouched w a ?a"
  proof (cases "status a w' = Some Closing")
    case True
    with Cons.prems have "w' \<noteq> w" by auto
    with True Cons.prems show ?thesis by (simp add: close_window_untouched)
  next
    case False
    with Cons.prems show ?thesis by (simp add: untouched_refl)
  qed
  from Cons.IH [OF untouched_closed [OF u]] have "untouched w ?a (fold
     (\<lambda>w a. if status a w = Some Closing then close_window cfg entrySet w a else a) ws ?a)" .
  with u have "untouched w a (fold
     (\<lambda>w a. if status a w = Some Closing then close_window cfg entrySet w a else a) ws ?a)"
    by (rule untouched_trans)
  then show ?case by simp
qed

lemma tick_untouched:
  assumes "status agg w = Some Closed"
  shows "untouched w agg (tick cfg entrySet now agg)"
proof -
  let ?agg1 = "agg\<lparr>status := (\<lambda>w. if status agg w = Some Open \<and> w + windowSize (spec cfg) \<le> now
                                  then Some Closing else status agg w)\<rparr>"
  from assms have u1: "untouched w agg ?agg1" by (simp add: untouched_def)
  from close_all_untouched [OF untouched_closed [OF u1], of cfg entrySet "instances ?agg1"]
  have "untouched w ?agg1 (tick cfg entrySet now agg)"
    by (simp add: tick_def Let_def)
  with u1 show ?thesis by (rule untouched_trans)
qed

lemma ingest_untouched:
  assumes "status agg w = Some Closed" "ingest cfg now ev agg = Inr agg'"
  shows "untouched w agg agg'"
proof -
  from assms(2) have a: "agg' = fold (route ev) (assign (occurredAt ev) (spec cfg)) agg"
    by (auto simp: ingest_def split: if_splits)
  from assms(1) have c: "is_closed agg w" by (simp add: is_closed_def)
  show ?thesis
    unfolding untouched_def a
    using assms(1) c
    by (simp add: fold_route_emitted fold_route_status_closed fold_route_store assign_distinct)
qed

lemma exec_untouched:
  assumes "status agg w = Some Closed"
  shows "untouched w agg (exec cfg entrySet op agg)"
proof (cases op)
  case (Ingest now ev)
  show ?thesis
  proof (cases "ingest cfg now ev agg")
    case (Inl e)
    with Ingest assms show ?thesis by (simp add: untouched_refl)
  next
    case (Inr agg')
    with Ingest ingest_untouched [OF assms Inr] show ?thesis by simp
  qed
next
  case (Tick now)
  with tick_untouched [OF assms] show ?thesis by simp
qed

lemma execute_untouched:
  "status agg w = Some Closed \<Longrightarrow> untouched w agg (execute cfg entrySet ops agg)"
proof (induction ops arbitrary: agg)
  case Nil
  then show ?case by (simp add: execute_def untouched_refl)
next
  case (Cons op ops)
  have u: "untouched w agg (exec cfg entrySet op agg)"
    by (rule exec_untouched [OF Cons.prems])
  from Cons.IH [OF untouched_closed [OF u]] u
  have "untouched w agg (execute cfg entrySet ops (exec cfg entrySet op agg))"
    by (metis untouched_trans)
  then show ?case by (simp add: execute_def)
qed

lemma close_window_other:
  assumes "x \<noteq> w"
  shows "status (close_window cfg entrySet x a) w = status a w"
    and "snapshot w (store (close_window cfg entrySet x a)) = snapshot w (store a)"
    and "\<exists>s. emitted (close_window cfg entrySet x a) = emitted a @ [s] \<and> windowStart s \<noteq> w"
  using assms by (auto simp: close_window_def Let_def snapshot_def evict_def)

lemma close_window_self:
  "status (close_window cfg entrySet w a) w = Some Closed"
  "store (close_window cfg entrySet w a) (w, k) = None"
  "emitted (close_window cfg entrySet w a) =
     emitted a @ [\<lparr>windowStart = w, windowEnd = w + windowSize (spec cfg),
                    entries = selectTopK (topK cfg) (entrySet (snapshot w (store a)))\<rparr>]"
  by (simp_all add: close_window_def Let_def evict_def)

lemma close_all_closes:
  assumes "status a w = Some Closing" "w \<in> set ws"
  shows "\<exists>pre post.
     status (fold (\<lambda>w a. if status a w = Some Closing then close_window cfg entrySet w a else a) ws a) w
       = Some Closed \<and>
     (\<forall>k. store (fold (\<lambda>w a. if status a w = Some Closing then close_window cfg entrySet w a else a) ws a)
            (w, k) = None) \<and>
     emitted (fold (\<lambda>w a. if status a w = Some Closing then close_window cfg entrySet w a else a) ws a)
       = emitted a @ pre @
         [\<lparr>windowStart = w, windowEnd = w + windowSize (spec cfg),
           entries = selectTopK (topK cfg) (entrySet (snapshot w (store a)))\<rparr>] @ post \<and>
     (\<forall>s \<in> set (pre @ post). windowStart s \<noteq> w)"
  using assms
proof (induction ws arbitrary: a)
  case Nil
  then show ?case by simp
next
  case (Cons x ws)
  let ?f = "\<lambda>w a. if status a w = Some Closing then close_window cfg entrySet w a else a"
  let ?snap = "\<lambda>a. \<lparr>windowStart = w, windowEnd = w + windowSize (spec cfg),
           entries = selectTopK (topK cfg) (entrySet (snapshot w (store a)))\<rparr>"
  show ?case
  proof (cases "x = w")
    case True
    let ?a = "close_window cfg entrySet w a"
    from True Cons.prems have step: "?f x a = ?a" by simp
    have c: "status ?a w = Some Closed" by (rule close_window_self)
    from close_all_untouched [OF c, of cfg entrySet ws]
    obtain new where u: "status (fold ?f ws ?a) w = Some Closed"
      "emitted (fold ?f ws ?a) = emitted ?a @ new" "\<forall>s \<in> set new. windowStart s \<noteq> w"
      "\<forall>k. store (fold ?f ws ?a) (w, k) = store ?a (w, k)"
      by (auto simp: untouched_def)
    have "status (fold ?f (x # ws) a) w = Some Closed \<and>
          (\<forall>k. store (fold ?f (x # ws) a) (w, k) = None) \<and>
          emitted (fold ?f (x # ws) a) = emitted a @ [] @ [?snap a] @ new \<and>
          (\<forall>s \<in> set ([] @ new). windowStart s \<noteq> w)"
      using u step by (simp add: close_window_self)
    then show ?thesis by blast
  next
    case False
    let ?a = "?f x a"
    from False Cons.prems have in_ws: "w \<in> set ws" by simp
    have st: "status ?a w = Some Closing"
      using False Cons.prems(1) by (simp add: close_window_other)
    have sn: "snapshot w (store ?a) = snapshot w (store a)"
      using False by (simp add: close_window_other)
    obtain p where p: "emitted ?a = emitted a @ p" "\<forall>s \<in> set p. windowStart s \<noteq> w"
    proof (cases "status a x = Some Closing")
      case True
      with close_window_other(3) [OF False, of cfg entrySet a] obtain s
        where "emitted ?a = emitted a @ [s]" "windowStart s \<noteq> w" by auto
      then show ?thesis by (intro that [of "[s]"]) auto
    next
      case False
      then show ?thesis by (intro that [of "[]"]) auto
    qed
    from Cons.IH [OF st in_ws] obtain pre post where
      r: "status (fold ?f ws ?a) w = Some Closed"
         "\<forall>k. store (fold ?f ws ?a) (w, k) = None"
         "emitted (fold ?f ws ?a) = emitted ?a @ pre @ [?snap ?a] @ post"
         "\<forall>s \<in> set (pre @ post). windowStart s \<noteq> w"
      by blast
    have "status (fold ?f (x # ws) a) w = Some Closed \<and>
          (\<forall>k. store (fold ?f (x # ws) a) (w, k) = None) \<and>
          emitted (fold ?f (x # ws) a) = emitted a @ (p @ pre) @ [?snap a] @ post \<and>
          (\<forall>s \<in> set ((p @ pre) @ post). windowStart s \<noteq> w)"
      using r p sn by auto
    then show ?thesis by blast
  qed
qed

lemma tick_closes:
  assumes "status agg w = Some Open" "w \<in> set (instances agg)"
    "w + windowSize (spec cfg) \<le> now"
  shows "\<exists>pre post.
     status (tick cfg entrySet now agg) w = Some Closed \<and>
     (\<forall>k. store (tick cfg entrySet now agg) (w, k) = None) \<and>
     emitted (tick cfg entrySet now agg)
       = emitted agg @ pre @
         [\<lparr>windowStart = w, windowEnd = w + windowSize (spec cfg),
           entries = selectTopK (topK cfg) (entrySet (snapshot w (store agg)))\<rparr>] @ post \<and>
     (\<forall>s \<in> set (pre @ post). windowStart s \<noteq> w)"
proof -
  let ?agg1 = "agg\<lparr>status := (\<lambda>w. if status agg w = Some Open \<and> w + windowSize (spec cfg) \<le> now
                                  then Some Closing else status agg w)\<rparr>"
  from assms have s: "status ?agg1 w = Some Closing" and i: "w \<in> set (instances ?agg1)"
    by simp_all
  from close_all_closes [OF s i, of cfg entrySet] show ?thesis
    by (simp add: tick_def Let_def)
qed

text \<open>
  C6. Once the instance \<open>w\<close> is closed, then after any further events and ticks it is
  still closed, the sink has been handed nothing more for \<open>w\<close> (the snapshots emitted
  before are still there, followed only by snapshots of other instances), and the store
  holds for \<open>w\<close> what it held at closing. A well-formed event that arrives then is not
  an error: it changes neither the emitted snapshots nor the store of \<open>w\<close>, and the
  late-event metric goes up by one for every closed instance among the event's windows.
  Closing itself is what the tick does to an open instance whose end has passed: it hands
  the sink one snapshot of the instance's counts, evicts them and leaves the instance
  closed.
\<close>

theorem closed_window_is_final:
  assumes "status agg w = Some Closed"
  shows "status (execute cfg entrySet ops agg) w = Some Closed \<and>
         (\<exists>new. emitted (execute cfg entrySet ops agg) = emitted agg @ new \<and>
                (\<forall>s \<in> set new. windowStart s \<noteq> w)) \<and>
         (\<forall>k. store (execute cfg entrySet ops agg) (w, k) = store agg (w, k)) \<and>
         (key ev \<noteq> [] \<and> \<bar>occurredAt ev - now\<bar> \<le> slack cfg \<longrightarrow>
            (\<exists>agg'. ingest cfg now ev agg = Inr agg' \<and>
               emitted agg' = emitted agg \<and>
               (\<forall>k. store agg' (w, k) = store agg (w, k)) \<and>
               late agg' =
                 late agg + length (filter (is_closed agg) (assign (occurredAt ev) (spec cfg))))) \<and>
         (status agg0 w = Some Open \<and> w \<in> set (instances agg0) \<and>
          w + windowSize (spec cfg) \<le> now0 \<longrightarrow>
            (\<exists>pre post.
               status (tick cfg entrySet now0 agg0) w = Some Closed \<and>
               (\<forall>k. store (tick cfg entrySet now0 agg0) (w, k) = None) \<and>
               emitted (tick cfg entrySet now0 agg0)
                 = emitted agg0 @ pre @
                   [\<lparr>windowStart = w, windowEnd = w + windowSize (spec cfg),
                     entries = selectTopK (topK cfg) (entrySet (snapshot w (store agg0)))\<rparr>] @ post \<and>
               (\<forall>s \<in> set (pre @ post). windowStart s \<noteq> w)))"
proof -
  from execute_untouched [OF assms, of cfg entrySet ops]
  have run: "status (execute cfg entrySet ops agg) w = Some Closed \<and>
         (\<exists>new. emitted (execute cfg entrySet ops agg) = emitted agg @ new \<and>
                (\<forall>s \<in> set new. windowStart s \<noteq> w)) \<and>
         (\<forall>k. store (execute cfg entrySet ops agg) (w, k) = store agg (w, k))"
    by (simp add: untouched_def)
  have one: "\<exists>agg'. ingest cfg now ev agg = Inr agg' \<and>
               emitted agg' = emitted agg \<and>
               (\<forall>k. store agg' (w, k) = store agg (w, k)) \<and>
               late agg' =
                 late agg + length (filter (is_closed agg) (assign (occurredAt ev) (spec cfg)))"
    if v: "key ev \<noteq> [] \<and> \<bar>occurredAt ev - now\<bar> \<le> slack cfg"
  proof -
    let ?agg' = "fold (route ev) (assign (occurredAt ev) (spec cfg)) agg"
    from v have i: "ingest cfg now ev agg = Inr ?agg'" by (simp add: ingest_def)
    from assms have c: "is_closed agg w" by (simp add: is_closed_def)
    from c have "\<forall>k. store ?agg' (w, k) = store agg (w, k)"
      by (simp add: fold_route_store assign_distinct)
    with i show ?thesis
      by (simp add: fold_route_emitted fold_route_late)
  qed
  have closing: "\<exists>pre post.
               status (tick cfg entrySet now0 agg0) w = Some Closed \<and>
               (\<forall>k. store (tick cfg entrySet now0 agg0) (w, k) = None) \<and>
               emitted (tick cfg entrySet now0 agg0)
                 = emitted agg0 @ pre @
                   [\<lparr>windowStart = w, windowEnd = w + windowSize (spec cfg),
                     entries = selectTopK (topK cfg) (entrySet (snapshot w (store agg0)))\<rparr>] @ post \<and>
               (\<forall>s \<in> set (pre @ post). windowStart s \<noteq> w)"
    if "status agg0 w = Some Open \<and> w \<in> set (instances agg0) \<and>
        w + windowSize (spec cfg) \<le> now0"
    using that tick_closes [of agg0 w cfg now0 entrySet] by blast
  from run one closing show ?thesis by blast
qed

lemma assign_example:
  "assign 7 \<lparr>windowSize = 10, windowSlide = 5\<rparr> = [0, 5] \<and>
   assign 8 \<lparr>windowSize = 10, windowSlide = 5\<rparr> = [0, 5]"
  by code_simp

lemma assign_reference_example:
  "assign 63 reference_spec = [5, 10, 15, 20, 25, 30, 35, 40, 45, 50, 55, 60]"
  by code_simp

text \<open>
  C2, as the model has it. For a well-formed window specification the assigner returns,
  for the time \<open>t\<close> of an event, exactly the window instances with
  \<open>start \<le> t < start + windowSize\<close> and \<open>start mod windowSlide = 0\<close>, each once,
  and they are \<open>windowSize / windowSlide\<close> many (12 in the reference configuration).
  An event that \<open>ingest\<close> accepts adds its weight to the count of its key in exactly
  those of these instances that have not been closed, and changes no other count; each of
  its instances that has been closed adds one to the late-event metric instead. So the
  event is reflected in all \<open>windowSize / windowSlide\<close> instances when none of them
  has been closed, and in fewer otherwise.
\<close>

theorem event_in_its_open_windows:
  assumes "well_formed (spec cfg)" and "ingest cfg now ev agg = Inr agg'"
  shows
   "set (assign (occurredAt ev) (spec cfg)) =
      {start. start \<le> occurredAt ev \<and> occurredAt ev < start + windowSize (spec cfg) \<and>
              start mod windowSlide (spec cfg) = 0} \<and>
    distinct (assign (occurredAt ev) (spec cfg)) \<and>
    int (length (assign (occurredAt ev) (spec cfg))) =
      windowSize (spec cfg) div windowSlide (spec cfg) \<and>
    length (assign t reference_spec) = 12 \<and>
    (\<forall>w k. store agg' (w, k) =
       (if w \<in> set (assign (occurredAt ev) (spec cfg)) \<and> k = key ev \<and> \<not> is_closed agg w
        then Some ((case store agg (w, k) of None \<Rightarrow> 0 | Some c \<Rightarrow> c) + weight ev)
        else store agg (w, k))) \<and>
    late agg' = late agg + length (filter (is_closed agg) (assign (occurredAt ev) (spec cfg))) \<and>
    length (filter (\<lambda>w. \<not> is_closed agg w) (assign (occurredAt ev) (spec cfg))) +
      length (filter (is_closed agg) (assign (occurredAt ev) (spec cfg))) =
      nat (windowSize (spec cfg) div windowSlide (spec cfg))"
proof -
  let ?ws = "assign (occurredAt ev) (spec cfg)"
  have r: "well_formed reference_spec"
    by (simp add: well_formed_def reference_spec_def)
  have "int (length (assign t reference_spec)) = 12"
    using assign_length [OF r, of t] by (simp add: reference_spec_def)
  then have twelve: "length (assign t reference_spec) = 12" by simp
  from assms(2) have a: "agg' = fold (route ev) ?ws agg"
    by (auto simp: ingest_def split: if_splits)
  have len: "int (length ?ws) = windowSize (spec cfg) div windowSlide (spec cfg)"
    by (rule assign_length [OF assms(1)])
  have "length (filter (\<lambda>w. \<not> is_closed agg w) ?ws) + length (filter (is_closed agg) ?ws)
        = length ?ws"
    using sum_length_filter_compl [of "is_closed agg" ?ws] by simp
  with len have parts: "length (filter (\<lambda>w. \<not> is_closed agg w) ?ws) +
      length (filter (is_closed agg) ?ws) = nat (windowSize (spec cfg) div windowSlide (spec cfg))"
    by simp
  have st: "\<forall>w k. store agg' (w, k) =
       (if w \<in> set ?ws \<and> k = key ev \<and> \<not> is_closed agg w
        then Some ((case store agg (w, k) of None \<Rightarrow> 0 | Some c \<Rightarrow> c) + weight ev)
        else store agg (w, k))"
    unfolding a by (simp add: fold_route_store assign_distinct)
  have lt: "late agg' = late agg + length (filter (is_closed agg) ?ws)"
    unfolding a by (rule fold_route_late)
  from len twelve st lt parts show ?thesis
    by (simp only: assign_set assign_distinct simp_thms)
qed

text \<open>
  The theorem at windows of size 10 every 5: an event at time 7 into the initial state is
  counted in the instances 0 and 5, and no count of another instance changes.
\<close>

theorem event_in_its_open_windows_witness:
  "well_formed \<lparr>windowSize = 10, windowSlide = 5\<rparr> \<and>
   assign 7 \<lparr>windowSize = 10, windowSlide = 5\<rparr> = [0, 5] \<and>
   int (length (assign 7 \<lparr>windowSize = 10, windowSlide = 5\<rparr>)) = 10 div 5 \<and>
   assign 63 reference_spec = [5, 10, 15, 20, 25, 30, 35, 40, 45, 50, 55, 60] \<and>
   (\<exists>agg'. ingest \<lparr>spec = \<lparr>windowSize = 10, windowSlide = 5\<rparr>, topK = 5, slack = 100\<rparr> 7
              \<lparr>key = ''x'', occurredAt = 7, weight = 1\<rparr> initial = Inr agg' \<and>
           store agg' (0, ''x'') = Some 1 \<and> store agg' (5, ''x'') = Some 1 \<and>
           store agg' (10, ''x'') = None \<and> store agg' (- 5, ''x'') = None \<and>
           store agg' (0, ''y'') = None \<and> late agg' = 0)"
proof -
  let ?ws = "\<lparr>windowSize = 10, windowSlide = 5\<rparr>"
  let ?ev = "\<lparr>key = ''x'', occurredAt = 7, weight = 1\<rparr>"
  let ?cfg = "\<lparr>spec = ?ws, topK = 5, slack = 100\<rparr>"
  let ?agg = "fold (route ?ev) (assign (occurredAt ?ev) ?ws) initial"
  have wf: "well_formed (spec ?cfg)" by (simp add: well_formed_def)
  have a: "assign 7 ?ws = [0, 5]" using assign_example by simp
  have i: "ingest ?cfg 7 ?ev initial = Inr ?agg" by (simp add: ingest_def)
  have o: "\<not> is_closed initial w" for w
    by (simp add: is_closed_def initial_def)
  note t = event_in_its_open_windows [OF wf i]
  from t have s: "\<forall>w k. store ?agg (w, k) =
       (if w \<in> set (assign 7 ?ws) \<and> k = ''x'' \<and> \<not> is_closed initial w
        then Some ((case store initial (w, k) of None \<Rightarrow> 0 | Some c \<Rightarrow> c) + 1)
        else store initial (w, k))"
    and l: "late ?agg = late initial + length (filter (is_closed initial) (assign 7 ?ws))"
    and n: "int (length (assign 7 ?ws)) = 10 div 5"
    by simp_all
  have "store ?agg (0, ''x'') = Some 1 \<and> store ?agg (5, ''x'') = Some 1 \<and>
        store ?agg (10, ''x'') = None \<and> store ?agg (- 5, ''x'') = None \<and>
        store ?agg (0, ''y'') = None \<and> late ?agg = 0"
  proof -
    have si: "store initial x = None" for x by (simp add: initial_def)
    have li: "late initial = 0" by (simp add: initial_def)
    from s l show ?thesis by (simp add: a o si li)
  qed
  with i have e: "\<exists>agg'. ingest ?cfg 7 ?ev initial = Inr agg' \<and>
           store agg' (0, ''x'') = Some 1 \<and> store agg' (5, ''x'') = Some 1 \<and>
           store agg' (10, ''x'') = None \<and> store agg' (- 5, ''x'') = None \<and>
           store agg' (0, ''y'') = None \<and> late agg' = 0" by blast
  from wf a n e assign_reference_example show ?thesis by simp
qed

text \<open>
  C2 as stated fails for an event that arrives after one of its windows has closed. An
  event at time 7 opens the instances 0 and 5, and the tick at time 10 closes the instance
  0. The next event has time 8 and arrives at time 12: it is well within the slack and is
  accepted, its instances are again 0 and 5, but only the count of the instance 5 goes up.
  It is reflected in one window instance, not in \<open>10 / 5 = 2\<close>.
\<close>

theorem late_event_counterexample:
  "well_formed \<lparr>windowSize = 10, windowSlide = 5\<rparr> \<and>
   assign 8 \<lparr>windowSize = 10, windowSlide = 5\<rparr> = [0, 5] \<and>
   \<bar>8 - 12\<bar> \<le> (100 :: int) \<and>
   store (execute \<lparr>spec = \<lparr>windowSize = 10, windowSlide = 5\<rparr>, topK = 5, slack = 100\<rparr>
            (entrySet_of [''x''])
            [Ingest 7 \<lparr>key = ''x'', occurredAt = 7, weight = 1\<rparr>, Tick 10] initial) (0, ''x'') = None \<and>
   store (execute \<lparr>spec = \<lparr>windowSize = 10, windowSlide = 5\<rparr>, topK = 5, slack = 100\<rparr>
            (entrySet_of [''x''])
            [Ingest 7 \<lparr>key = ''x'', occurredAt = 7, weight = 1\<rparr>, Tick 10] initial) (5, ''x'') = Some 1 \<and>
   ingest \<lparr>spec = \<lparr>windowSize = 10, windowSlide = 5\<rparr>, topK = 5, slack = 100\<rparr> 12
      \<lparr>key = ''x'', occurredAt = 8, weight = 1\<rparr>
      (execute \<lparr>spec = \<lparr>windowSize = 10, windowSlide = 5\<rparr>, topK = 5, slack = 100\<rparr>
            (entrySet_of [''x''])
            [Ingest 7 \<lparr>key = ''x'', occurredAt = 7, weight = 1\<rparr>, Tick 10] initial)
     \<noteq> Inl InvalidEvent \<and>
   store (execute \<lparr>spec = \<lparr>windowSize = 10, windowSlide = 5\<rparr>, topK = 5, slack = 100\<rparr>
            (entrySet_of [''x''])
            [Ingest 7 \<lparr>key = ''x'', occurredAt = 7, weight = 1\<rparr>, Tick 10,
             Ingest 12 \<lparr>key = ''x'', occurredAt = 8, weight = 1\<rparr>] initial) (0, ''x'') = None \<and>
   store (execute \<lparr>spec = \<lparr>windowSize = 10, windowSlide = 5\<rparr>, topK = 5, slack = 100\<rparr>
            (entrySet_of [''x''])
            [Ingest 7 \<lparr>key = ''x'', occurredAt = 7, weight = 1\<rparr>, Tick 10,
             Ingest 12 \<lparr>key = ''x'', occurredAt = 8, weight = 1\<rparr>] initial) (5, ''x'') = Some 2"
proof -
  have a: "assign 7 \<lparr>windowSize = 10, windowSlide = 5\<rparr> = [0, 5]"
    "assign 8 \<lparr>windowSize = 10, windowSlide = 5\<rparr> = [0, 5]"
    using assign_example by simp_all
  show ?thesis
    by (simp add: a well_formed_def execute_def ingest_def route_def initial_def increment_def
        tick_def close_window_def Let_def evict_def)
qed

text \<open>
  The theorem on a run: an event at time 7, a tick at time 10 that closes the instance 0
  and emits its snapshot, and then a late event with time 8, which counts as one late
  event and leaves the snapshot and the evicted store alone.
\<close>

theorem closed_window_is_final_witness:
  "status (execute \<lparr>spec = \<lparr>windowSize = 10, windowSlide = 5\<rparr>, topK = 5, slack = 100\<rparr>
             (\<lambda>m. case m ''x'' of None \<Rightarrow> [] | Some c \<Rightarrow> [(''x'', c)])
             [Ingest 7 \<lparr>key = ''x'', occurredAt = 7, weight = 1\<rparr>, Tick 10] initial) 0
     = Some Closed \<and>
   emitted (execute \<lparr>spec = \<lparr>windowSize = 10, windowSlide = 5\<rparr>, topK = 5, slack = 100\<rparr>
             (\<lambda>m. case m ''x'' of None \<Rightarrow> [] | Some c \<Rightarrow> [(''x'', c)])
             [Ingest 7 \<lparr>key = ''x'', occurredAt = 7, weight = 1\<rparr>, Tick 10] initial)
     = [\<lparr>windowStart = 0, windowEnd = 10, entries = [(''x'', 1)]\<rparr>] \<and>
   emitted (execute \<lparr>spec = \<lparr>windowSize = 10, windowSlide = 5\<rparr>, topK = 5, slack = 100\<rparr>
             (\<lambda>m. case m ''x'' of None \<Rightarrow> [] | Some c \<Rightarrow> [(''x'', c)])
             [Ingest 7 \<lparr>key = ''x'', occurredAt = 7, weight = 1\<rparr>, Tick 10,
              Ingest 12 \<lparr>key = ''x'', occurredAt = 8, weight = 1\<rparr>] initial)
     = [\<lparr>windowStart = 0, windowEnd = 10, entries = [(''x'', 1)]\<rparr>] \<and>
   late (execute \<lparr>spec = \<lparr>windowSize = 10, windowSlide = 5\<rparr>, topK = 5, slack = 100\<rparr>
             (\<lambda>m. case m ''x'' of None \<Rightarrow> [] | Some c \<Rightarrow> [(''x'', c)])
             [Ingest 7 \<lparr>key = ''x'', occurredAt = 7, weight = 1\<rparr>, Tick 10,
              Ingest 12 \<lparr>key = ''x'', occurredAt = 8, weight = 1\<rparr>] initial) = 1 \<and>
   store (execute \<lparr>spec = \<lparr>windowSize = 10, windowSlide = 5\<rparr>, topK = 5, slack = 100\<rparr>
             (\<lambda>m. case m ''x'' of None \<Rightarrow> [] | Some c \<Rightarrow> [(''x'', c)])
             [Ingest 7 \<lparr>key = ''x'', occurredAt = 7, weight = 1\<rparr>, Tick 10,
              Ingest 12 \<lparr>key = ''x'', occurredAt = 8, weight = 1\<rparr>] initial) (0, ''x'') = None"
proof -
  let ?cfg = "\<lparr>spec = \<lparr>windowSize = 10, windowSlide = 5\<rparr>, topK = 5, slack = 100\<rparr>"
  let ?es = "\<lambda>m::string \<rightharpoonup> 32 word. case m ''x'' of None \<Rightarrow> [] | Some c \<Rightarrow> [(''x'', c)]"
  let ?e1 = "\<lparr>key = ''x'', occurredAt = 7, weight = 1\<rparr>"
  let ?e2 = "\<lparr>key = ''x'', occurredAt = 8, weight = 1\<rparr>"
  let ?agg = "execute ?cfg ?es [Ingest 7 ?e1, Tick 10] initial"
  have a7: "assign 7 \<lparr>windowSize = 10, windowSlide = 5\<rparr> = [0, 5]"
    and a8: "assign 8 \<lparr>windowSize = 10, windowSlide = 5\<rparr> = [0, 5]"
    by code_simp+
  have st: "status ?agg 0 = Some Closed"
    by (simp add: execute_def ingest_def a7 route_def initial_def increment_def tick_def
        close_window_def Let_def)
  have st5: "\<not> is_closed ?agg 5"
    by (simp add: execute_def ingest_def a7 route_def initial_def increment_def tick_def
        close_window_def Let_def is_closed_def)
  have em: "emitted ?agg = [\<lparr>windowStart = 0, windowEnd = 10, entries = [(''x'', 1)]\<rparr>]"
    by (simp add: execute_def ingest_def a7 route_def initial_def increment_def tick_def
        close_window_def Let_def snapshot_def topk_eval)
  have s0: "store ?agg (0, ''x'') = None"
    by (simp add: execute_def ingest_def a7 route_def initial_def increment_def tick_def
        close_window_def Let_def evict_def)
  have l0: "late ?agg = 0"
    by (simp add: execute_def ingest_def a7 route_def initial_def increment_def tick_def
        close_window_def Let_def)
  have split: "execute ?cfg ?es [Ingest 7 ?e1, Tick 10, Ingest 12 ?e2] initial =
               execute ?cfg ?es [Ingest 12 ?e2] ?agg"
    by (simp add: execute_def)
  note t = closed_window_is_final [OF st, of ?cfg ?es "[Ingest 12 ?e2]" ?e2 12]
  from t [THEN conjunct2, THEN conjunct2, THEN conjunct2, THEN conjunct1]
  obtain agg' where i: "ingest ?cfg 12 ?e2 ?agg = Inr agg'"
    and l: "late agg' = late ?agg + length (filter (is_closed ?agg) (assign 8 \<lparr>windowSize = 10, windowSlide = 5\<rparr>))"
    and e: "emitted agg' = emitted ?agg" and s: "\<forall>k. store agg' (0, k) = store ?agg (0, k)"
    by auto
  have x: "execute ?cfg ?es [Ingest 12 ?e2] ?agg = agg'"
    using i by (simp add: execute_def)
  from st have c0: "is_closed ?agg 0" by (simp add: is_closed_def)
  from l c0 st5 l0 have l1: "late agg' = 1" by (simp add: a8)
  show ?thesis
    unfolding split x using st em e s s0 l1 by simp
qed

end
